theory Spec2Isabelle
  imports Main "HOL-Library.Monad_Syntax"
begin

section \<open>The store\<close>

text \<open>
  \<^verbatim>\<open>list.cpp\<close> builds a circular doubly-linked list out of \<^verbatim>\<open>ListNode\<close> objects that
  point at each other, and \<^verbatim>\<open>List\<close> objects that point at nodes. Both kinds of object
  live in an explicit store, so that aliasing (two pointers to one node, one list
  passed twice) is what it is in the program.

  An address is a natural number. The node store is a list of cells: cell \<open>a\<close> holds
  the node allocated at address \<open>a\<close>, or \<open>None\<close> once it has been deleted. \<^verbatim>\<open>new\<close>
  takes the next address that was never used. Dereferencing an address that holds no
  live object is undefined behaviour in C++; here every such access makes the
  operation return \<open>None\<close>, so that an operation that returns \<open>Some\<close> result has
  dereferenced live objects only. The list store holds the \<^verbatim>\<open>List\<close> objects in the
  same way; the destructor \<^verbatim>\<open>~List\<close> and the queries \<^verbatim>\<open>isFirst\<close>, \<^verbatim>\<open>isLast\<close>,
  \<^verbatim>\<open>isHead\<close> and \<^verbatim>\<open>nextToTop\<close> are left out.

  A \<^verbatim>\<open>gObject*\<close> is either the null pointer or a pointer to a boxed object; the list
  code never looks inside the box, so the box is a type parameter.

  The counters \<^verbatim>\<open>_index\<close> and \<^verbatim>\<open>_length\<close> are C++ \<^verbatim>\<open>int\<close>s. They are modelled as
  unbounded integers: signed overflow is undefined in C++ and would need a list of
  \<open>2^31 - 1\<close> nodes.
\<close>

type_synonym addr = nat

datatype 'o gObject_ptr = NULL | Obj 'o

record 'o ListNode =
  n_val :: "'o gObject_ptr"
  n_next :: addr
  n_prev :: addr

type_synonym 'o node_heap = "'o ListNode option list"

record List =
  header :: addr
  win :: addr
  l_index :: int
  l_length :: int

record 'o state =
  nodes :: "'o node_heap"
  lists :: "List list"

definition node_at :: "'o node_heap \<Rightarrow> addr \<Rightarrow> 'o ListNode option" where
  "node_at h a = (if a < length h then h ! a else None)"

text \<open>Field reads \<^verbatim>\<open>a->_val\<close>, \<^verbatim>\<open>a->_next\<close>, \<^verbatim>\<open>a->_prev\<close>.\<close>

definition get_val :: "'o node_heap \<Rightarrow> addr \<Rightarrow> 'o gObject_ptr option" where
  "get_val h a = map_option n_val (node_at h a)"

definition get_next :: "'o node_heap \<Rightarrow> addr \<Rightarrow> addr option" where
  "get_next h a = map_option n_next (node_at h a)"

definition get_prev :: "'o node_heap \<Rightarrow> addr \<Rightarrow> addr option" where
  "get_prev h a = map_option n_prev (node_at h a)"

text \<open>Field writes \<^verbatim>\<open>a->_val = v\<close>, \<^verbatim>\<open>a->_next = v\<close>, \<^verbatim>\<open>a->_prev = v\<close>.\<close>

definition set_val :: "'o node_heap \<Rightarrow> addr \<Rightarrow> 'o gObject_ptr \<Rightarrow> 'o node_heap option" where
  "set_val h a v =
     (case node_at h a of None \<Rightarrow> None | Some n \<Rightarrow> Some (h[a := Some (n\<lparr>n_val := v\<rparr>)]))"

definition set_next :: "'o node_heap \<Rightarrow> addr \<Rightarrow> addr \<Rightarrow> 'o node_heap option" where
  "set_next h a v =
     (case node_at h a of None \<Rightarrow> None | Some n \<Rightarrow> Some (h[a := Some (n\<lparr>n_next := v\<rparr>)]))"

definition set_prev :: "'o node_heap \<Rightarrow> addr \<Rightarrow> addr \<Rightarrow> 'o node_heap option" where
  "set_prev h a v =
     (case node_at h a of None \<Rightarrow> None | Some n \<Rightarrow> Some (h[a := Some (n\<lparr>n_prev := v\<rparr>)]))"

text \<open>\<^verbatim>\<open>delete p\<close> for a node (the destructor of \<^verbatim>\<open>ListNode\<close> is empty).\<close>

definition delete_ListNode :: "'o node_heap \<Rightarrow> addr \<Rightarrow> 'o node_heap option" where
  "delete_ListNode h a =
     (case node_at h a of None \<Rightarrow> None | Some n \<Rightarrow> Some (h[a := None]))"

text \<open>The fields of a \<^verbatim>\<open>List\<close> object, read and written through its address.\<close>

definition get_list :: "'o state \<Rightarrow> addr \<Rightarrow> List option" where
  "get_list s this = (if this < length (lists s) then Some (lists s ! this) else None)"

definition get_header :: "'o state \<Rightarrow> addr \<Rightarrow> addr option" where
  "get_header s this = map_option header (get_list s this)"

definition get_win :: "'o state \<Rightarrow> addr \<Rightarrow> addr option" where
  "get_win s this = map_option win (get_list s this)"

definition get_index :: "'o state \<Rightarrow> addr \<Rightarrow> int option" where
  "get_index s this = map_option l_index (get_list s this)"

definition get_length :: "'o state \<Rightarrow> addr \<Rightarrow> int option" where
  "get_length s this = map_option l_length (get_list s this)"

definition set_win :: "'o state \<Rightarrow> addr \<Rightarrow> addr \<Rightarrow> 'o state option" where
  "set_win s this v =
     (case get_list s this of None \<Rightarrow> None
      | Some L \<Rightarrow> Some (s\<lparr>lists := (lists s)[this := L\<lparr>win := v\<rparr>]\<rparr>))"

definition set_index :: "'o state \<Rightarrow> addr \<Rightarrow> int \<Rightarrow> 'o state option" where
  "set_index s this v =
     (case get_list s this of None \<Rightarrow> None
      | Some L \<Rightarrow> Some (s\<lparr>lists := (lists s)[this := L\<lparr>l_index := v\<rparr>]\<rparr>))"

definition set_length :: "'o state \<Rightarrow> addr \<Rightarrow> int \<Rightarrow> 'o state option" where
  "set_length s this v =
     (case get_list s this of None \<Rightarrow> None
      | Some L \<Rightarrow> Some (s\<lparr>lists := (lists s)[this := L\<lparr>l_length := v\<rparr>]\<rparr>))"

section \<open>ListNode\<close>

text \<open>
  \<^verbatim>\<open>ListNode::ListNode(gObject *val)\<close>: \<^verbatim>\<open>_val=val; _next=_prev=this;\<close>. The default
  constructor is the same with \<^verbatim>\<open>_val=NULL\<close>. The result is the new address and the
  store with the node in it.
\<close>

definition new_ListNode :: "'o gObject_ptr \<Rightarrow> 'o node_heap \<Rightarrow> addr \<times> 'o node_heap" where
  "new_ListNode v h =
     (length h, h @ [Some \<lparr>n_val = v, n_next = length h, n_prev = length h\<rparr>])"

definition ListNode_next :: "addr \<Rightarrow> 'o node_heap \<Rightarrow> addr option" where
  "ListNode_next this h = get_next h this"

definition ListNode_prev :: "addr \<Rightarrow> 'o node_heap \<Rightarrow> addr option" where
  "ListNode_prev this h = get_prev h this"

text \<open>
  \<^verbatim>\<open>ListNode::insert(ListNode *b)\<close>:
  \<^verbatim>\<open>c=_next; b->_next=c; b->_prev=this; _next=b; c->_prev=b; return b;\<close>
\<close>

definition ListNode_insert :: "addr \<Rightarrow> addr \<Rightarrow> 'o node_heap \<Rightarrow> (addr \<times> 'o node_heap) option" where
  "ListNode_insert this b h = do {
     c \<leftarrow> get_next h this;
     h \<leftarrow> set_next h b c;
     h \<leftarrow> set_prev h b this;
     h \<leftarrow> set_next h this b;
     h \<leftarrow> set_prev h c b;
     Some (b, h)
   }"

text \<open>
  \<^verbatim>\<open>ListNode::remove()\<close>:
  \<^verbatim>\<open>_prev->_next=_next; _next->_prev=_prev; _next=_prev=this; return this;\<close>
  Each statement reads the fields of \<^verbatim>\<open>this\<close> again, as the program does.
\<close>

definition ListNode_remove :: "addr \<Rightarrow> 'o node_heap \<Rightarrow> (addr \<times> 'o node_heap) option" where
  "ListNode_remove this h = do {
     p \<leftarrow> get_prev h this;
     n \<leftarrow> get_next h this;
     h \<leftarrow> set_next h p n;
     n \<leftarrow> get_next h this;
     p \<leftarrow> get_prev h this;
     h \<leftarrow> set_prev h n p;
     h \<leftarrow> set_prev h this this;
     h \<leftarrow> set_next h this this;
     Some (this, h)
   }"

text \<open>
  \<^verbatim>\<open>ListNode::splice(ListNode *b)\<close>:
  \<^verbatim>\<open>a=this; an=a->_next; bn=b->_next; a->_next=bn; b->_next=an; an->_prev=b; bn->_prev=a;\<close>
\<close>

definition ListNode_splice :: "addr \<Rightarrow> addr \<Rightarrow> 'o node_heap \<Rightarrow> 'o node_heap option" where
  "ListNode_splice this b h = do {
     let a = this;
     an \<leftarrow> get_next h a;
     bn \<leftarrow> get_next h b;
     h \<leftarrow> set_next h a bn;
     h \<leftarrow> set_next h b an;
     h \<leftarrow> set_prev h an b;
     h \<leftarrow> set_prev h bn a;
     Some h
   }"

section \<open>List\<close>

text \<open>
  \<^verbatim>\<open>List::List()\<close>: \<^verbatim>\<open>_index=0; _length=0; header=new ListNode(); win=header;\<close>.
  The object itself takes the next free slot of the list store.
\<close>

definition List_new :: "'o state \<Rightarrow> addr \<times> 'o state" where
  "List_new s =
     (let (hd, h) = new_ListNode NULL (nodes s)
      in (length (lists s),
          s\<lparr>nodes := h,
            lists := lists s @ [\<lparr>header = hd, win = hd, l_index = 0, l_length = 0\<rparr>]\<rparr>))"

text \<open>\<^verbatim>\<open>List::insert\<close>: \<^verbatim>\<open>win->insert(new ListNode(val)); ++_length; return val;\<close>\<close>

definition List_insert :: "addr \<Rightarrow> 'o gObject_ptr \<Rightarrow> 'o state \<Rightarrow> ('o gObject_ptr \<times> 'o state) option" where
  "List_insert this v s = do {
     let (b, h) = new_ListNode v (nodes s);
     w \<leftarrow> get_win s this;
     (_, h) \<leftarrow> ListNode_insert w b h;
     let s = s\<lparr>nodes := h\<rparr>;
     n \<leftarrow> get_length s this;
     s \<leftarrow> set_length s this (n + 1);
     Some (v, s)
   }"

text \<open>
  \<^verbatim>\<open>List::prepend\<close>:
  \<^verbatim>\<open>header->insert(new ListNode(val)); ++_length; if(_index>0) _index++; return val;\<close>
\<close>

definition List_prepend :: "addr \<Rightarrow> 'o gObject_ptr \<Rightarrow> 'o state \<Rightarrow> ('o gObject_ptr \<times> 'o state) option" where
  "List_prepend this v s = do {
     let (b, h) = new_ListNode v (nodes s);
     hd \<leftarrow> get_header s this;
     (_, h) \<leftarrow> ListNode_insert hd b h;
     let s = s\<lparr>nodes := h\<rparr>;
     n \<leftarrow> get_length s this;
     s \<leftarrow> set_length s this (n + 1);
     i \<leftarrow> get_index s this;
     s \<leftarrow> (if i > 0 then set_index s this (i + 1) else Some s);
     Some (v, s)
   }"

text \<open>
  \<^verbatim>\<open>List::append(gObject *val)\<close>:
  \<^verbatim>\<open>header->prev()->insert(new ListNode(val)); ++_length; return val;\<close>
\<close>

definition List_append :: "addr \<Rightarrow> 'o gObject_ptr \<Rightarrow> 'o state \<Rightarrow> ('o gObject_ptr \<times> 'o state) option" where
  "List_append this v s = do {
     let (b, h) = new_ListNode v (nodes s);
     hd \<leftarrow> get_header s this;
     p \<leftarrow> ListNode_prev hd h;
     (_, h) \<leftarrow> ListNode_insert p b h;
     let s = s\<lparr>nodes := h\<rparr>;
     n \<leftarrow> get_length s this;
     s \<leftarrow> set_length s this (n + 1);
     Some (v, s)
   }"

text \<open>
  \<^verbatim>\<open>List::append(List *l)\<close>:
  \<^verbatim>\<open>a=header->prev(); a->splice(l->header); _length+=l->_length; l->header->remove();
  l->_length=0; l->win=l->header; return this;\<close>
  Every statement goes through the store, so \<^verbatim>\<open>this\<close> and \<^verbatim>\<open>l\<close> may be one object.
\<close>

definition List_append_list :: "addr \<Rightarrow> addr \<Rightarrow> 'o state \<Rightarrow> (addr \<times> 'o state) option" where
  "List_append_list this l s = do {
     hd \<leftarrow> get_header s this;
     a \<leftarrow> ListNode_prev hd (nodes s);
     lh \<leftarrow> get_header s l;
     h \<leftarrow> ListNode_splice a lh (nodes s);
     let s = s\<lparr>nodes := h\<rparr>;
     n \<leftarrow> get_length s this;
     m \<leftarrow> get_length s l;
     s \<leftarrow> set_length s this (n + m);
     lh \<leftarrow> get_header s l;
     (_, h) \<leftarrow> ListNode_remove lh (nodes s);
     let s = s\<lparr>nodes := h\<rparr>;
     s \<leftarrow> set_length s l 0;
     lh \<leftarrow> get_header s l;
     s \<leftarrow> set_win s l lh;
     Some (this, s)
   }"

text \<open>
  \<^verbatim>\<open>List::remove()\<close>:
  \<^verbatim>\<open>if(win == header) return NULL; val=win->_val; win=win->prev();
  delete win->next()->remove(); --_length; --_index; return val;\<close>
\<close>

definition List_remove :: "addr \<Rightarrow> 'o state \<Rightarrow> ('o gObject_ptr \<times> 'o state) option" where
  "List_remove this s = do {
     w \<leftarrow> get_win s this;
     hd \<leftarrow> get_header s this;
     if w = hd then Some (NULL, s)
     else do {
       v \<leftarrow> get_val (nodes s) w;
       p \<leftarrow> ListNode_prev w (nodes s);
       s \<leftarrow> set_win s this p;
       w \<leftarrow> get_win s this;
       x \<leftarrow> ListNode_next w (nodes s);
       (r, h) \<leftarrow> ListNode_remove x (nodes s);
       h \<leftarrow> delete_ListNode h r;
       let s = s\<lparr>nodes := h\<rparr>;
       n \<leftarrow> get_length s this;
       s \<leftarrow> set_length s this (n - 1);
       i \<leftarrow> get_index s this;
       s \<leftarrow> set_index s this (i - 1);
       Some (v, s)
     }
   }"

text \<open>
  \<^verbatim>\<open>List::val(gObject *val)\<close>:
  \<^verbatim>\<open>oval=NULL; if(win != header){ oval=win->_val; win->_val=val; } return oval;\<close>
\<close>

definition List_val_set :: "addr \<Rightarrow> 'o gObject_ptr \<Rightarrow> 'o state \<Rightarrow> ('o gObject_ptr \<times> 'o state) option" where
  "List_val_set this v s = do {
     w \<leftarrow> get_win s this;
     hd \<leftarrow> get_header s this;
     if w \<noteq> hd then do {
       oval \<leftarrow> get_val (nodes s) w;
       h \<leftarrow> set_val (nodes s) w v;
       Some (oval, s\<lparr>nodes := h\<rparr>)
     }
     else Some (NULL, s)
   }"

text \<open>\<^verbatim>\<open>List::val()\<close>: \<^verbatim>\<open>return win->_val;\<close>\<close>

definition List_val :: "addr \<Rightarrow> 'o state \<Rightarrow> ('o gObject_ptr \<times> 'o state) option" where
  "List_val this s = do {
     w \<leftarrow> get_win s this;
     v \<leftarrow> get_val (nodes s) w;
     Some (v, s)
   }"

text \<open>
  The two loops of \<^verbatim>\<open>List::GetAt\<close>:
  \<^verbatim>\<open>for(i=_index;i>_pt;i--) win=win->_prev;\<close> and
  \<^verbatim>\<open>for(i=_index;i<_pt;i++) win=win->_next;\<close>
\<close>

function GetAt_backward :: "addr \<Rightarrow> int \<Rightarrow> int \<Rightarrow> 'o state \<Rightarrow> 'o state option" where
  "GetAt_backward this i pt s =
     (if i > pt then do {
        w \<leftarrow> get_win s this;
        p \<leftarrow> get_prev (nodes s) w;
        s \<leftarrow> set_win s this p;
        GetAt_backward this (i - 1) pt s
      }
      else Some s)"
  by pat_completeness auto
termination
  by (relation "measure (\<lambda>(this, i, pt, s). nat (i - pt))") auto

function GetAt_forward :: "addr \<Rightarrow> int \<Rightarrow> int \<Rightarrow> 'o state \<Rightarrow> 'o state option" where
  "GetAt_forward this i pt s =
     (if i < pt then do {
        w \<leftarrow> get_win s this;
        x \<leftarrow> get_next (nodes s) w;
        s \<leftarrow> set_win s this x;
        GetAt_forward this (i + 1) pt s
      }
      else Some s)"
  by pat_completeness auto
termination
  by (relation "measure (\<lambda>(this, i, pt, s). nat (pt - i))") auto

text \<open>
  \<^verbatim>\<open>List::GetAt(int _pt)\<close>:
  \<^verbatim>\<open>if((_pt < 1) || (_pt > _length)) return NULL;
  if(_pt < _index){ loop; _index=_pt; return win->_val; }
  else if(_pt > _index){ loop; _index=_pt; return win->_val; }
  else return win->_val;\<close>
\<close>

definition List_GetAt :: "addr \<Rightarrow> int \<Rightarrow> 'o state \<Rightarrow> ('o gObject_ptr \<times> 'o state) option" where
  "List_GetAt this pt s = do {
     n \<leftarrow> get_length s this;
     if pt < 1 \<or> pt > n then Some (NULL, s)
     else do {
       i \<leftarrow> get_index s this;
       if pt < i then do {
         s \<leftarrow> GetAt_backward this i pt s;
         s \<leftarrow> set_index s this pt;
         w \<leftarrow> get_win s this;
         v \<leftarrow> get_val (nodes s) w;
         Some (v, s)
       }
       else if pt > i then do {
         s \<leftarrow> GetAt_forward this i pt s;
         s \<leftarrow> set_index s this pt;
         w \<leftarrow> get_win s this;
         v \<leftarrow> get_val (nodes s) w;
         Some (v, s)
       }
       else do {
         w \<leftarrow> get_win s this;
         v \<leftarrow> get_val (nodes s) w;
         Some (v, s)
       }
     }
   }"

text \<open>
  \<^verbatim>\<open>List::next()\<close>:
  \<^verbatim>\<open>win=win->next(); _index++; if(_index>_length) _index=0; return win->_val;\<close>
\<close>

definition List_next :: "addr \<Rightarrow> 'o state \<Rightarrow> ('o gObject_ptr \<times> 'o state) option" where
  "List_next this s = do {
     w \<leftarrow> get_win s this;
     x \<leftarrow> ListNode_next w (nodes s);
     s \<leftarrow> set_win s this x;
     i \<leftarrow> get_index s this;
     s \<leftarrow> set_index s this (i + 1);
     i \<leftarrow> get_index s this;
     n \<leftarrow> get_length s this;
     s \<leftarrow> (if i > n then set_index s this 0 else Some s);
     w \<leftarrow> get_win s this;
     v \<leftarrow> get_val (nodes s) w;
     Some (v, s)
   }"

text \<open>
  \<^verbatim>\<open>List::prev()\<close>:
  \<^verbatim>\<open>win=win->prev(); --_index; if(_index<0) _index=_length+_index+1; return win->_val;\<close>
\<close>

definition List_prev :: "addr \<Rightarrow> 'o state \<Rightarrow> ('o gObject_ptr \<times> 'o state) option" where
  "List_prev this s = do {
     w \<leftarrow> get_win s this;
     p \<leftarrow> ListNode_prev w (nodes s);
     s \<leftarrow> set_win s this p;
     i \<leftarrow> get_index s this;
     s \<leftarrow> set_index s this (i - 1);
     i \<leftarrow> get_index s this;
     n \<leftarrow> get_length s this;
     s \<leftarrow> (if i < 0 then set_index s this (n + i + 1) else Some s);
     w \<leftarrow> get_win s this;
     v \<leftarrow> get_val (nodes s) w;
     Some (v, s)
   }"

text \<open>\<^verbatim>\<open>List::first()\<close>: \<^verbatim>\<open>win=header->next(); _index=1; return win->_val;\<close>\<close>

definition List_first :: "addr \<Rightarrow> 'o state \<Rightarrow> ('o gObject_ptr \<times> 'o state) option" where
  "List_first this s = do {
     hd \<leftarrow> get_header s this;
     x \<leftarrow> ListNode_next hd (nodes s);
     s \<leftarrow> set_win s this x;
     s \<leftarrow> set_index s this 1;
     w \<leftarrow> get_win s this;
     v \<leftarrow> get_val (nodes s) w;
     Some (v, s)
   }"

text \<open>\<^verbatim>\<open>List::last()\<close>: \<^verbatim>\<open>win=header->prev(); _index=_length; return win->_val;\<close>\<close>

definition List_last :: "addr \<Rightarrow> 'o state \<Rightarrow> ('o gObject_ptr \<times> 'o state) option" where
  "List_last this s = do {
     hd \<leftarrow> get_header s this;
     p \<leftarrow> ListNode_prev hd (nodes s);
     s \<leftarrow> set_win s this p;
     n \<leftarrow> get_length s this;
     s \<leftarrow> set_index s this n;
     w \<leftarrow> get_win s this;
     v \<leftarrow> get_val (nodes s) w;
     Some (v, s)
   }"

text \<open>\<^verbatim>\<open>List::length()\<close>: \<^verbatim>\<open>return _length;\<close>\<close>

definition List_length :: "addr \<Rightarrow> 'o state \<Rightarrow> int option" where
  "List_length this s = get_length s this"

section \<open>Stack\<close>

text \<open>
  A \<^verbatim>\<open>Stack\<close> has one member, the \<^verbatim>\<open>List s\<close>, and no state of its own: a stack is the
  address of its list, and \<^verbatim>\<open>Stack::Stack()\<close> constructs that list.
\<close>

definition Stack_new :: "'o state \<Rightarrow> addr \<times> 'o state" where
  "Stack_new s = List_new s"

text \<open>\<^verbatim>\<open>Stack::push\<close>: \<^verbatim>\<open>s.prepend(v);\<close>\<close>

definition Stack_push :: "addr \<Rightarrow> 'o gObject_ptr \<Rightarrow> 'o state \<Rightarrow> 'o state option" where
  "Stack_push st v s = do {
     (_, s) \<leftarrow> List_prepend st v s;
     Some s
   }"

text \<open>\<^verbatim>\<open>Stack::pop\<close>: \<^verbatim>\<open>s.first(); return s.remove();\<close>\<close>

definition Stack_pop :: "addr \<Rightarrow> 'o state \<Rightarrow> ('o gObject_ptr \<times> 'o state) option" where
  "Stack_pop st s = do {
     (_, s) \<leftarrow> List_first st s;
     List_remove st s
   }"

text \<open>\<^verbatim>\<open>Stack::size\<close>: \<^verbatim>\<open>return s.length();\<close>\<close>

definition Stack_size :: "addr \<Rightarrow> 'o state \<Rightarrow> int option" where
  "Stack_size st s = List_length st s"

text \<open>\<^verbatim>\<open>Stack::empty\<close>: \<^verbatim>\<open>return ((s.length()) == 0);\<close>\<close>

definition Stack_empty :: "addr \<Rightarrow> 'o state \<Rightarrow> bool option" where
  "Stack_empty st s = map_option (\<lambda>n. n = 0) (List_length st s)"

text \<open>\<^verbatim>\<open>Stack::top\<close>: \<^verbatim>\<open>return s.first();\<close>\<close>

definition Stack_top :: "addr \<Rightarrow> 'o state \<Rightarrow> ('o gObject_ptr \<times> 'o state) option" where
  "Stack_top st s = List_first st s"

text \<open>\<^verbatim>\<open>Stack::bottom\<close>: \<^verbatim>\<open>return s.last();\<close>\<close>

definition Stack_bottom :: "addr \<Rightarrow> 'o state \<Rightarrow> ('o gObject_ptr \<times> 'o state) option" where
  "Stack_bottom st s = List_last st s"

section \<open>list2vector\<close>

text \<open>
  \<^verbatim>\<open>gInt::gInt(int _data)\<close> boxes an integer. \<^verbatim>\<open>ivector1_2(length)\<close> allocates
  \<^verbatim>\<open>length\<close> uninitialised integers and returns the pointer moved back by one, so that
  the valid subscripts are \<open>1\<close> to \<^verbatim>\<open>length\<close>. The array is the list of its cells in
  subscript order, a cell being \<open>None\<close> until it is written; subscript \<open>i\<close> is cell
  \<open>i - 1\<close> of the list, and a subscript outside \<open>1..length\<close> is an error.
\<close>

datatype gInt = gInt (data: int)

type_synonym ivector = "int option list"

definition ivector1_2 :: "int \<Rightarrow> ivector option" where
  "ivector1_2 n = (if n < 0 then None else Some (replicate (nat n) None))"

definition ivector_set :: "ivector \<Rightarrow> int \<Rightarrow> int \<Rightarrow> ivector option" where
  "ivector_set out i v =
     (if 1 \<le> i \<and> i \<le> int (length out) then Some (out[nat (i - 1) := Some v]) else None)"

text \<open>
  The loop of \<^verbatim>\<open>list2vector\<close>:
  \<^verbatim>\<open>for(i=1;i<=n;i++){ out[i]=((gInt*) list->val())->data; list->next(); }\<close>
  Reading \<^verbatim>\<open>data\<close> through a null pointer is an error.
\<close>

function list2vector_loop ::
  "addr \<Rightarrow> int \<Rightarrow> int \<Rightarrow> ivector \<Rightarrow> gInt state \<Rightarrow> (ivector \<times> gInt state) option" where
  "list2vector_loop list i n out s =
     (if i \<le> n then do {
        (v, s) \<leftarrow> List_val list s;
        d \<leftarrow> (case v of NULL \<Rightarrow> None | Obj g \<Rightarrow> Some (data g));
        out \<leftarrow> ivector_set out i d;
        (_, s) \<leftarrow> List_next list s;
        list2vector_loop list (i + 1) n out s
      }
      else Some (out, s))"
  by pat_completeness auto
termination
  by (relation "measure (\<lambda>(list, i, n, out, s). nat (n + 1 - i))") auto

text \<open>
  \<^verbatim>\<open>list2vector(List *list)\<close>:
  \<^verbatim>\<open>n=list->length(); out=ivector1_2(n); list->first(); loop; return out;\<close>
\<close>

definition list2vector :: "addr \<Rightarrow> gInt state \<Rightarrow> (ivector \<times> gInt state) option" where
  "list2vector list s = do {
     n \<leftarrow> List_length list s;
     out \<leftarrow> ivector1_2 n;
     (_, s) \<leftarrow> List_first list s;
     list2vector_loop list 1 n out s
   }"

section \<open>Well-formed lists\<close>

text \<open>A node is live when its address holds a node that has not been deleted.\<close>

definition live :: "'o node_heap \<Rightarrow> addr \<Rightarrow> bool" where
  "live h a = (node_at h a \<noteq> None)"

text \<open>
  \<open>links nx pv p xs\<close>: starting at node \<open>p\<close>, the nodes \<open>xs\<close> follow one another through
  the \<^verbatim>\<open>_next\<close> fields \<open>nx\<close>, and the \<^verbatim>\<open>_prev\<close> fields \<open>pv\<close> lead back the same way.
\<close>

fun links :: "(addr \<rightharpoonup> addr) \<Rightarrow> (addr \<rightharpoonup> addr) \<Rightarrow> addr \<Rightarrow> addr list \<Rightarrow> bool" where
  "links nx pv p [] = True"
| "links nx pv p (x # xs) = (nx p = Some x \<and> pv x = Some p \<and> links nx pv x xs)"

text \<open>
  \<open>ring nx pv hdr ns\<close>: the ring of the header \<open>hdr\<close> consists of \<open>hdr\<close> and the
  nodes \<open>ns\<close>, all different, in this order, and closes back on \<open>hdr\<close>.
\<close>

definition ring :: "(addr \<rightharpoonup> addr) \<Rightarrow> (addr \<rightharpoonup> addr) \<Rightarrow> addr \<Rightarrow> addr list \<Rightarrow> bool" where
  "ring nx pv hdr ns = (distinct (hdr # ns) \<and> links nx pv hdr (ns @ [hdr]))"

text \<open>
  \<open>rep s this hdr ns i idx\<close>: in the store \<open>s\<close>, \<^verbatim>\<open>this\<close> is a list object whose header
  is \<open>hdr\<close> and holds no value, whose ring holds the element nodes \<open>ns\<close> in order, whose
  \<^verbatim>\<open>_length\<close> is their number, whose window is the node at position \<open>i\<close> of the cycle
  \<open>hdr # ns\<close> (position 0 is the header, position \<open>k\<close> the \<open>k\<close>-th element), and whose
  \<^verbatim>\<open>_index\<close> field holds \<open>idx\<close>. Nothing ties \<open>idx\<close> to \<open>i\<close>: the list keeps the
  invariant of its cursor when \<open>idx = int i\<close>.
\<close>

definition rep :: "'o state \<Rightarrow> addr \<Rightarrow> addr \<Rightarrow> addr list \<Rightarrow> nat \<Rightarrow> int \<Rightarrow> bool" where
  "rep s this hdr ns i idx =
     (get_list s this =
        Some \<lparr>header = hdr, win = (hdr # ns) ! i, l_index = idx, l_length = int (length ns)\<rparr> \<and>
      i \<le> length ns \<and>
      ring (get_next (nodes s)) (get_prev (nodes s)) hdr ns \<and>
      get_val (nodes s) hdr = Some NULL)"

text \<open>The store after a change to the fields of one list object.\<close>

definition upd_list :: "'o state \<Rightarrow> addr \<Rightarrow> (List \<Rightarrow> List) \<Rightarrow> 'o state" where
  "upd_list s this f = s\<lparr>lists := (lists s)[this := f (lists s ! this)]\<rparr>"

text \<open>
  The position of the window after one step forward or backward along a ring of \<open>n\<close>
  elements, and after the steps that \<^verbatim>\<open>GetAt\<close> takes from position \<open>i\<close> when the
  \<^verbatim>\<open>_index\<close> field holds \<open>idx\<close>.
\<close>

definition succ_pos :: "nat \<Rightarrow> nat \<Rightarrow> nat" where
  "succ_pos n i = (if i = n then 0 else Suc i)"

definition pred_pos :: "nat \<Rightarrow> nat \<Rightarrow> nat" where
  "pred_pos n i = (if i = 0 then n else i - 1)"

definition GetAt_pos :: "nat \<Rightarrow> nat \<Rightarrow> int \<Rightarrow> int \<Rightarrow> nat" where
  "GetAt_pos n i idx pt =
     (if pt < idx then (pred_pos n ^^ nat (idx - pt)) i
      else (succ_pos n ^^ nat (pt - idx)) i)"

text \<open>
  What a list holds, read off the store: follow \<^verbatim>\<open>_next\<close> from the header
  \<^verbatim>\<open>_length\<close> times and collect the values of the nodes met.
\<close>

fun walk :: "(addr \<rightharpoonup> addr) \<Rightarrow> addr \<Rightarrow> nat \<Rightarrow> addr list" where
  "walk nx a 0 = []"
| "walk nx a (Suc k) = (case nx a of None \<Rightarrow> [] | Some b \<Rightarrow> b # walk nx b k)"

definition ring_nodes :: "'o state \<Rightarrow> addr \<Rightarrow> addr list" where
  "ring_nodes s this =
     (case get_list s this of None \<Rightarrow> []
      | Some L \<Rightarrow> walk (get_next (nodes s)) (header L) (nat (l_length L)))"

definition value_at :: "'o node_heap \<Rightarrow> addr \<Rightarrow> 'o gObject_ptr" where
  "value_at h a = (case get_val h a of None \<Rightarrow> NULL | Some v \<Rightarrow> v)"

definition elements :: "'o state \<Rightarrow> addr \<Rightarrow> 'o gObject_ptr list" where
  "elements s this = map (value_at (nodes s)) (ring_nodes s this)"

text \<open>
  The invariant of the cursor: \<open>0 \<le> _index \<le> _length\<close>, and \<open>_index = 0\<close> exactly
  when the window is the header.
\<close>

definition invariant :: "'o state \<Rightarrow> addr \<Rightarrow> bool" where
  "invariant s this =
     (case get_list s this of None \<Rightarrow> False
      | Some L \<Rightarrow> 0 \<le> l_index L \<and> l_index L \<le> l_length L \<and>
          ((l_index L = 0) = (win L = header L)))"

text \<open>
  A node is well linked when it is live, the \<^verbatim>\<open>_next\<close> of its \<^verbatim>\<open>_prev\<close> is the node
  itself, and so is the \<^verbatim>\<open>_prev\<close> of its \<^verbatim>\<open>_next\<close>.
\<close>

definition well_linked :: "'o node_heap \<Rightarrow> addr \<Rightarrow> bool" where
  "well_linked h n =
     ((case get_prev h n of None \<Rightarrow> False | Some p \<Rightarrow> get_next h p = Some n) \<and>
      (case get_next h n of None \<Rightarrow> False | Some x \<Rightarrow> get_prev h x = Some n))"

text \<open>The nodes of the ring of a list, header first.\<close>

definition cycle :: "'o state \<Rightarrow> addr \<Rightarrow> addr list" where
  "cycle s this =
     (case get_list s this of None \<Rightarrow> [] | Some L \<Rightarrow> header L # ring_nodes s this)"

text \<open>
  The operations of \<^verbatim>\<open>List\<close> on one list, as a command that a caller picks, and what
  running it does to the store (the value returned is dropped).
\<close>

datatype 'o list_op =
    Insert "'o gObject_ptr" | Prepend "'o gObject_ptr" | Append "'o gObject_ptr"
  | Remove | SetVal "'o gObject_ptr" | Val | GetAt int | Next | Prev | First | Last

fun run_op :: "'o list_op \<Rightarrow> addr \<Rightarrow> 'o state \<Rightarrow> ('o gObject_ptr \<times> 'o state) option" where
  "run_op (Insert v) this s = List_insert this v s"
| "run_op (Prepend v) this s = List_prepend this v s"
| "run_op (Append v) this s = List_append this v s"
| "run_op Remove this s = List_remove this s"
| "run_op (SetVal v) this s = List_val_set this v s"
| "run_op Val this s = List_val this s"
| "run_op (GetAt pt) this s = List_GetAt this pt s"
| "run_op Next this s = List_next this s"
| "run_op Prev this s = List_prev this s"
| "run_op First this s = List_first this s"
| "run_op Last this s = List_last this s"

text \<open>
  \<^verbatim>\<open>first()\<close> followed by \<open>k\<close> calls of \<^verbatim>\<open>next()\<close>: the value that the last call
  returns, and the store it leaves.
\<close>

fun next_times :: "nat \<Rightarrow> addr \<Rightarrow> 'o gObject_ptr \<times> 'o state \<Rightarrow> ('o gObject_ptr \<times> 'o state) option" where
  "next_times 0 this r = Some r"
| "next_times (Suc k) this r = do { r' \<leftarrow> List_next this (snd r); next_times k this r' }"

definition first_then_next :: "addr \<Rightarrow> nat \<Rightarrow> 'o state \<Rightarrow> ('o gObject_ptr \<times> 'o state) option" where
  "first_then_next this k s = do { r \<leftarrow> List_first this s; next_times k this r }"

text \<open>Pushing a sequence of values in order, and popping \<open>n\<close> times, collecting what is returned.\<close>

fun pushes :: "addr \<Rightarrow> 'o gObject_ptr list \<Rightarrow> 'o state \<Rightarrow> 'o state option" where
  "pushes st [] s = Some s"
| "pushes st (v # vs) s = do { s' \<leftarrow> Stack_push st v s; pushes st vs s' }"

fun pops :: "nat \<Rightarrow> addr \<Rightarrow> 'o state \<Rightarrow> ('o gObject_ptr list \<times> 'o state) option" where
  "pops 0 st s = Some ([], s)"
| "pops (Suc n) st s = do {
     (v, s') \<leftarrow> Stack_pop st s;
     (vs, s'') \<leftarrow> pops n st s';
     Some (v # vs, s'')
   }"

text \<open>
  Reading the array at a one-based subscript (\<open>None\<close> outside \<open>1..length\<close> and for a
  cell never written), and the integer that a \<^verbatim>\<open>gObject*\<close> gives when it is cast to
  \<^verbatim>\<open>gInt*\<close> and its \<^verbatim>\<open>data\<close> is read.
\<close>

definition ivector_get :: "ivector \<Rightarrow> int \<Rightarrow> int option" where
  "ivector_get out i = (if 1 \<le> i \<and> i \<le> int (length out) then out ! nat (i - 1) else None)"

definition unbox :: "gInt gObject_ptr \<Rightarrow> int option" where
  "unbox v = (case v of NULL \<Rightarrow> None | Obj g \<Rightarrow> Some (data g))"

text \<open>A sequence of operations on one list, run one after the other.\<close>

fun run_ops :: "'o list_op list \<Rightarrow> addr \<Rightarrow> 'o state \<Rightarrow> 'o state option" where
  "run_ops [] this s = Some s"
| "run_ops (op # ops) this s = do { (_, s') \<leftarrow> run_op op this s; run_ops ops this s' }"

section \<open>Example stores\<close>

text \<open>
  The store right after \<^verbatim>\<open>List::List()\<close> has run in the empty store, and the same
  store after \<^verbatim>\<open>first()\<close>.
\<close>

definition fresh_list :: "gInt state" where
  "fresh_list = \<lparr>nodes = [Some \<lparr>n_val = NULL, n_next = 0, n_prev = 0\<rparr>],
                  lists = [\<lparr>header = 0, win = 0, l_index = 0, l_length = 0\<rparr>]\<rparr>"

definition fresh_list_first :: "gInt state" where
  "fresh_list_first = \<lparr>nodes = [Some \<lparr>n_val = NULL, n_next = 0, n_prev = 0\<rparr>],
                        lists = [\<lparr>header = 0, win = 0, l_index = 1, l_length = 0\<rparr>]\<rparr>"

text \<open>
  A list that holds the one value 7, as \<^verbatim>\<open>append\<close> on the fresh list leaves it, and
  the same list with the window on its element; the same two stores for a list whose
  one element is the null pointer; a list that holds 1, 2, 3, with the window on the
  header and on the second element.
\<close>

definition one_elem :: "gInt state" where
  "one_elem = \<lparr>nodes = [Some \<lparr>n_val = NULL, n_next = 1, n_prev = 1\<rparr>,
                         Some \<lparr>n_val = Obj (gInt 7), n_next = 0, n_prev = 0\<rparr>],
                lists = [\<lparr>header = 0, win = 0, l_index = 0, l_length = 1\<rparr>]\<rparr>"

definition one_elem_focused :: "gInt state" where
  "one_elem_focused = \<lparr>nodes = [Some \<lparr>n_val = NULL, n_next = 1, n_prev = 1\<rparr>,
                         Some \<lparr>n_val = Obj (gInt 7), n_next = 0, n_prev = 0\<rparr>],
                lists = [\<lparr>header = 0, win = 1, l_index = 1, l_length = 1\<rparr>]\<rparr>"

definition null_elem :: "gInt state" where
  "null_elem = \<lparr>nodes = [Some \<lparr>n_val = NULL, n_next = 1, n_prev = 1\<rparr>,
                          Some \<lparr>n_val = NULL, n_next = 0, n_prev = 0\<rparr>],
                 lists = [\<lparr>header = 0, win = 0, l_index = 0, l_length = 1\<rparr>]\<rparr>"

definition null_elem_focused :: "gInt state" where
  "null_elem_focused = \<lparr>nodes = [Some \<lparr>n_val = NULL, n_next = 1, n_prev = 1\<rparr>,
                          Some \<lparr>n_val = NULL, n_next = 0, n_prev = 0\<rparr>],
                 lists = [\<lparr>header = 0, win = 1, l_index = 1, l_length = 1\<rparr>]\<rparr>"

definition three_elems :: "gInt state" where
  "three_elems = \<lparr>nodes = [Some \<lparr>n_val = NULL, n_next = 1, n_prev = 3\<rparr>,
                            Some \<lparr>n_val = Obj (gInt 1), n_next = 2, n_prev = 0\<rparr>,
                            Some \<lparr>n_val = Obj (gInt 2), n_next = 3, n_prev = 1\<rparr>,
                            Some \<lparr>n_val = Obj (gInt 3), n_next = 0, n_prev = 2\<rparr>],
                   lists = [\<lparr>header = 0, win = 0, l_index = 0, l_length = 3\<rparr>]\<rparr>"

definition three_elems_at_2 :: "gInt state" where
  "three_elems_at_2 = \<lparr>nodes = [Some \<lparr>n_val = NULL, n_next = 1, n_prev = 3\<rparr>,
                            Some \<lparr>n_val = Obj (gInt 1), n_next = 2, n_prev = 0\<rparr>,
                            Some \<lparr>n_val = Obj (gInt 2), n_next = 3, n_prev = 1\<rparr>,
                            Some \<lparr>n_val = Obj (gInt 3), n_next = 0, n_prev = 2\<rparr>],
                   lists = [\<lparr>header = 0, win = 2, l_index = 2, l_length = 3\<rparr>]\<rparr>"

text \<open>
  Two lists in one store: list 0 holds 1, 2, 3 with the window on its header; list 1
  holds 4, 5 and \<^verbatim>\<open>first()\<close> has put its window on its first element (index 1). The
  store after list 1 has been appended to list 0, and that store after 7 has been
  appended to list 1.
\<close>

definition two_lists :: "gInt state" where
  "two_lists = \<lparr>nodes = [Some \<lparr>n_val = NULL, n_next = 1, n_prev = 3\<rparr>,
                          Some \<lparr>n_val = Obj (gInt 1), n_next = 2, n_prev = 0\<rparr>,
                          Some \<lparr>n_val = Obj (gInt 2), n_next = 3, n_prev = 1\<rparr>,
                          Some \<lparr>n_val = Obj (gInt 3), n_next = 0, n_prev = 2\<rparr>,
                          Some \<lparr>n_val = NULL, n_next = 5, n_prev = 6\<rparr>,
                          Some \<lparr>n_val = Obj (gInt 4), n_next = 6, n_prev = 4\<rparr>,
                          Some \<lparr>n_val = Obj (gInt 5), n_next = 4, n_prev = 5\<rparr>],
                 lists = [\<lparr>header = 0, win = 0, l_index = 0, l_length = 3\<rparr>,
                          \<lparr>header = 4, win = 5, l_index = 1, l_length = 2\<rparr>]\<rparr>"

definition merged :: "gInt state" where
  "merged = \<lparr>nodes = [Some \<lparr>n_val = NULL, n_next = 1, n_prev = 6\<rparr>,
                       Some \<lparr>n_val = Obj (gInt 1), n_next = 2, n_prev = 0\<rparr>,
                       Some \<lparr>n_val = Obj (gInt 2), n_next = 3, n_prev = 1\<rparr>,
                       Some \<lparr>n_val = Obj (gInt 3), n_next = 5, n_prev = 2\<rparr>,
                       Some \<lparr>n_val = NULL, n_next = 4, n_prev = 4\<rparr>,
                       Some \<lparr>n_val = Obj (gInt 4), n_next = 6, n_prev = 3\<rparr>,
                       Some \<lparr>n_val = Obj (gInt 5), n_next = 0, n_prev = 5\<rparr>],
              lists = [\<lparr>header = 0, win = 0, l_index = 0, l_length = 5\<rparr>,
                       \<lparr>header = 4, win = 4, l_index = 1, l_length = 0\<rparr>]\<rparr>"

definition merged_appended :: "gInt state" where
  "merged_appended = \<lparr>nodes = [Some \<lparr>n_val = NULL, n_next = 1, n_prev = 6\<rparr>,
                       Some \<lparr>n_val = Obj (gInt 1), n_next = 2, n_prev = 0\<rparr>,
                       Some \<lparr>n_val = Obj (gInt 2), n_next = 3, n_prev = 1\<rparr>,
                       Some \<lparr>n_val = Obj (gInt 3), n_next = 5, n_prev = 2\<rparr>,
                       Some \<lparr>n_val = NULL, n_next = 7, n_prev = 7\<rparr>,
                       Some \<lparr>n_val = Obj (gInt 4), n_next = 6, n_prev = 3\<rparr>,
                       Some \<lparr>n_val = Obj (gInt 5), n_next = 0, n_prev = 5\<rparr>,
                       Some \<lparr>n_val = Obj (gInt 7), n_next = 4, n_prev = 4\<rparr>],
              lists = [\<lparr>header = 0, win = 0, l_index = 0, l_length = 5\<rparr>,
                       \<lparr>header = 4, win = 4, l_index = 1, l_length = 1\<rparr>]\<rparr>"

text \<open>
  The stores that follow the fresh list after \<^verbatim>\<open>first()\<close> has left its index at 1:
  after \<^verbatim>\<open>append(7)\<close>, then after \<^verbatim>\<open>next()\<close>, then after \<^verbatim>\<open>remove()\<close>.
\<close>

definition one_elem_stale :: "gInt state" where
  "one_elem_stale = \<lparr>nodes = [Some \<lparr>n_val = NULL, n_next = 1, n_prev = 1\<rparr>,
                               Some \<lparr>n_val = Obj (gInt 7), n_next = 0, n_prev = 0\<rparr>],
                      lists = [\<lparr>header = 0, win = 0, l_index = 1, l_length = 1\<rparr>]\<rparr>"

definition one_elem_index_0 :: "gInt state" where
  "one_elem_index_0 = \<lparr>nodes = [Some \<lparr>n_val = NULL, n_next = 1, n_prev = 1\<rparr>,
                                 Some \<lparr>n_val = Obj (gInt 7), n_next = 0, n_prev = 0\<rparr>],
                        lists = [\<lparr>header = 0, win = 1, l_index = 0, l_length = 1\<rparr>]\<rparr>"

definition emptied_negative :: "gInt state" where
  "emptied_negative = \<lparr>nodes = [Some \<lparr>n_val = NULL, n_next = 0, n_prev = 0\<rparr>, None],
                        lists = [\<lparr>header = 0, win = 0, l_index = - 1, l_length = 0\<rparr>]\<rparr>"

section \<open>The store and the node operations\<close>

lemma node_at_update:
  "node_at (h[a := x]) b = (if b = a \<and> a < length h then x else node_at h b)"
  by (simp add: node_at_def)

lemma node_at_fresh: "length h \<le> a \<Longrightarrow> node_at h a = None"
  by (simp add: node_at_def)

lemma live_less: "live h a \<Longrightarrow> a < length h"
  by (auto simp: live_def node_at_def split: if_splits)

lemma get_next_live: "get_next h a = Some x \<Longrightarrow> live h a"
  by (auto simp: get_next_def live_def)

lemma live_val: "live h a \<Longrightarrow> \<exists>x. get_val h a = Some x"
  by (auto simp: get_val_def live_def)

lemma live_iff_next: "live h = (\<lambda>a. get_next h a \<noteq> None)"
  by (auto simp: get_next_def live_def)

lemma set_next_eff:
  assumes "live h a"
  shows "\<exists>h'. set_next h a v = Some h' \<and> get_next h' = (get_next h)(a \<mapsto> v)
           \<and> get_prev h' = get_prev h \<and> get_val h' = get_val h \<and> length h' = length h"
proof -
  from assms obtain n where n: "node_at h a = Some n" by (auto simp: live_def)
  then have lt: "a < length h" by (auto simp: node_at_def split: if_splits)
  let ?h = "h[a := Some (n\<lparr>n_next := v\<rparr>)]"
  have "set_next h a v = Some ?h" by (simp add: set_next_def n)
  moreover have "get_next ?h = (get_next h)(a \<mapsto> v)"
    by (rule ext) (simp add: get_next_def node_at_update lt)
  moreover have "get_prev ?h = get_prev h"
    by (rule ext) (simp add: get_prev_def node_at_update lt n)
  moreover have "get_val ?h = get_val h"
    by (rule ext) (simp add: get_val_def node_at_update lt n)
  ultimately show ?thesis by simp
qed

lemma set_prev_eff:
  assumes "live h a"
  shows "\<exists>h'. set_prev h a v = Some h' \<and> get_prev h' = (get_prev h)(a \<mapsto> v)
           \<and> get_next h' = get_next h \<and> get_val h' = get_val h \<and> length h' = length h"
proof -
  from assms obtain n where n: "node_at h a = Some n" by (auto simp: live_def)
  then have lt: "a < length h" by (auto simp: node_at_def split: if_splits)
  let ?h = "h[a := Some (n\<lparr>n_prev := v\<rparr>)]"
  have "set_prev h a v = Some ?h" by (simp add: set_prev_def n)
  moreover have "get_prev ?h = (get_prev h)(a \<mapsto> v)"
    by (rule ext) (simp add: get_prev_def node_at_update lt)
  moreover have "get_next ?h = get_next h"
    by (rule ext) (simp add: get_next_def node_at_update lt n)
  moreover have "get_val ?h = get_val h"
    by (rule ext) (simp add: get_val_def node_at_update lt n)
  ultimately show ?thesis by simp
qed

lemma set_val_eff:
  assumes "live h a"
  shows "\<exists>h'. set_val h a v = Some h' \<and> get_val h' = (get_val h)(a \<mapsto> v)
           \<and> get_next h' = get_next h \<and> get_prev h' = get_prev h \<and> length h' = length h"
proof -
  from assms obtain n where n: "node_at h a = Some n" by (auto simp: live_def)
  then have lt: "a < length h" by (auto simp: node_at_def split: if_splits)
  let ?h = "h[a := Some (n\<lparr>n_val := v\<rparr>)]"
  have "set_val h a v = Some ?h" by (simp add: set_val_def n)
  moreover have "get_val ?h = (get_val h)(a \<mapsto> v)"
    by (rule ext) (simp add: get_val_def node_at_update lt)
  moreover have "get_next ?h = get_next h"
    by (rule ext) (simp add: get_next_def node_at_update lt n)
  moreover have "get_prev ?h = get_prev h"
    by (rule ext) (simp add: get_prev_def node_at_update lt n)
  ultimately show ?thesis by simp
qed

lemma delete_ListNode_eff:
  assumes "live h a"
  shows "\<exists>h'. delete_ListNode h a = Some h' \<and> get_next h' = (get_next h)(a := None)
           \<and> get_prev h' = (get_prev h)(a := None) \<and> get_val h' = (get_val h)(a := None)
           \<and> length h' = length h"
proof -
  from assms obtain n where n: "node_at h a = Some n" by (auto simp: live_def)
  then have lt: "a < length h" by (auto simp: node_at_def split: if_splits)
  have "delete_ListNode h a = Some (h[a := None])" by (simp add: delete_ListNode_def n)
  moreover have "get_next (h[a := None]) = (get_next h)(a := None)"
    by (rule ext) (simp add: get_next_def node_at_update lt)
  moreover have "get_prev (h[a := None]) = (get_prev h)(a := None)"
    by (rule ext) (simp add: get_prev_def node_at_update lt)
  moreover have "get_val (h[a := None]) = (get_val h)(a := None)"
    by (rule ext) (simp add: get_val_def node_at_update lt)
  ultimately show ?thesis by simp
qed

lemma new_ListNode_eff:
  "new_ListNode v h = (length h, h') \<Longrightarrow>
     get_next h' = (get_next h)(length h \<mapsto> length h) \<and>
     get_prev h' = (get_prev h)(length h \<mapsto> length h) \<and>
     get_val h' = (get_val h)(length h \<mapsto> v) \<and> length h' = Suc (length h)"
  by (auto simp: new_ListNode_def get_next_def get_prev_def get_val_def node_at_def
      nth_append fun_eq_iff)

subsection \<open>What the node operations do to the links\<close>

lemma ListNode_insert_eff:
  assumes c: "get_next h this = Some c" and b: "live h b" and lc: "live h c"
  shows "\<exists>h'. ListNode_insert this b h = Some (b, h') \<and>
           get_next h' = (get_next h)(b \<mapsto> c, this \<mapsto> b) \<and>
           get_prev h' = (get_prev h)(b \<mapsto> this, c \<mapsto> b) \<and>
           get_val h' = get_val h \<and> length h' = length h"
proof -
  have lt: "live h this" using c by (rule get_next_live)
  obtain h1 where h1: "set_next h b c = Some h1" "get_next h1 = (get_next h)(b \<mapsto> c)"
      "get_prev h1 = get_prev h" "get_val h1 = get_val h" "length h1 = length h"
    using set_next_eff [OF b] by blast
  have "live h1 b" using b h1(2) by (simp add: live_iff_next)
  then obtain h2 where h2: "set_prev h1 b this = Some h2" "get_prev h2 = (get_prev h1)(b \<mapsto> this)"
      "get_next h2 = get_next h1" "get_val h2 = get_val h1" "length h2 = length h1"
    using set_prev_eff by blast
  have "live h2 this" using lt h1(2) h2(3) by (simp add: live_iff_next)
  then obtain h3 where h3: "set_next h2 this b = Some h3" "get_next h3 = (get_next h2)(this \<mapsto> b)"
      "get_prev h3 = get_prev h2" "get_val h3 = get_val h2" "length h3 = length h2"
    using set_next_eff by blast
  have "live h3 c" using lc h1(2) h2(3) h3(2) by (simp add: live_iff_next)
  then obtain h4 where h4: "set_prev h3 c b = Some h4" "get_prev h4 = (get_prev h3)(c \<mapsto> b)"
      "get_next h4 = get_next h3" "get_val h4 = get_val h3" "length h4 = length h3"
    using set_prev_eff by blast
  have "ListNode_insert this b h = Some (b, h4)"
    by (simp add: ListNode_insert_def c h1(1) h2(1) h3(1) h4(1))
  then show ?thesis using h1 h2 h3 h4 by simp
qed

lemma ListNode_remove_eff:
  assumes p: "get_prev h this = Some p" and n: "get_next h this = Some n"
    and lp: "live h p" and ln: "live h n"
  shows "\<exists>h'. ListNode_remove this h = Some (this, h') \<and>
           get_next h' = (get_next h)(p \<mapsto> n, this \<mapsto> this) \<and>
           get_prev h' = (get_prev h)(n \<mapsto> p, this \<mapsto> this) \<and>
           get_val h' = get_val h \<and> length h' = length h"
proof -
  have lt: "live h this" using n by (rule get_next_live)
  obtain h1 where h1: "set_next h p n = Some h1" "get_next h1 = (get_next h)(p \<mapsto> n)"
      "get_prev h1 = get_prev h" "get_val h1 = get_val h" "length h1 = length h"
    using set_next_eff [OF lp] by blast
  have n1: "get_next h1 this = Some n" using n h1(2) by simp
  have p1: "get_prev h1 this = Some p" using p h1(3) by simp
  have "live h1 n" using ln h1(2) by (simp add: live_iff_next)
  then obtain h2 where h2: "set_prev h1 n p = Some h2" "get_prev h2 = (get_prev h1)(n \<mapsto> p)"
      "get_next h2 = get_next h1" "get_val h2 = get_val h1" "length h2 = length h1"
    using set_prev_eff by blast
  have "live h2 this" using lt h1(2) h2(3) by (simp add: live_iff_next)
  then obtain h3 where h3: "set_prev h2 this this = Some h3" "get_prev h3 = (get_prev h2)(this \<mapsto> this)"
      "get_next h3 = get_next h2" "get_val h3 = get_val h2" "length h3 = length h2"
    using set_prev_eff by blast
  have "live h3 this" using lt h1(2) h2(3) h3(3) by (simp add: live_iff_next)
  then obtain h4 where h4: "set_next h3 this this = Some h4" "get_next h4 = (get_next h3)(this \<mapsto> this)"
      "get_prev h4 = get_prev h3" "get_val h4 = get_val h3" "length h4 = length h3"
    using set_next_eff by blast
  have "ListNode_remove this h = Some (this, h4)"
    by (simp add: ListNode_remove_def p n h1(1) n1 p1 h2(1) h3(1) h4(1))
  then show ?thesis using h1 h2 h3 h4 by simp
qed

lemma ListNode_splice_eff:
  assumes an: "get_next h a = Some an" and bn: "get_next h b = Some bn"
    and lan: "live h an" and lbn: "live h bn"
  shows "\<exists>h'. ListNode_splice a b h = Some h' \<and>
           get_next h' = (get_next h)(a \<mapsto> bn, b \<mapsto> an) \<and>
           get_prev h' = (get_prev h)(an \<mapsto> b, bn \<mapsto> a) \<and>
           get_val h' = get_val h \<and> length h' = length h"
proof -
  have la: "live h a" using an by (rule get_next_live)
  have lb: "live h b" using bn by (rule get_next_live)
  obtain h1 where h1: "set_next h a bn = Some h1" "get_next h1 = (get_next h)(a \<mapsto> bn)"
      "get_prev h1 = get_prev h" "get_val h1 = get_val h" "length h1 = length h"
    using set_next_eff [OF la] by blast
  have "live h1 b" using lb h1(2) by (simp add: live_iff_next)
  then obtain h2 where h2: "set_next h1 b an = Some h2" "get_next h2 = (get_next h1)(b \<mapsto> an)"
      "get_prev h2 = get_prev h1" "get_val h2 = get_val h1" "length h2 = length h1"
    using set_next_eff by blast
  have "live h2 an" using lan h1(2) h2(2) by (simp add: live_iff_next)
  then obtain h3 where h3: "set_prev h2 an b = Some h3" "get_prev h3 = (get_prev h2)(an \<mapsto> b)"
      "get_next h3 = get_next h2" "get_val h3 = get_val h2" "length h3 = length h2"
    using set_prev_eff by blast
  have "live h3 bn" using lbn h1(2) h2(2) h3(3) by (simp add: live_iff_next)
  then obtain h4 where h4: "set_prev h3 bn a = Some h4" "get_prev h4 = (get_prev h3)(bn \<mapsto> a)"
      "get_next h4 = get_next h3" "get_val h4 = get_val h3" "length h4 = length h3"
    using set_prev_eff by blast
  have "ListNode_splice a b h = Some h4"
    by (simp add: ListNode_splice_def an bn h1(1) h2(1) h3(1) h4(1))
  then show ?thesis using h1 h2 h3 h4 by simp
qed

subsection \<open>Chains of links\<close>

lemma links_append:
  "links nx pv p (xs @ ys) = (links nx pv p xs \<and> links nx pv (last (p # xs)) ys)"
  by (induction xs arbitrary: p) auto

lemma links_next_upd:
  "a \<notin> set (butlast (p # xs)) \<Longrightarrow> links (nx(a := v)) pv p xs = links nx pv p xs"
  by (induction xs arbitrary: p) auto

lemma links_prev_upd:
  "a \<notin> set xs \<Longrightarrow> links nx (pv(a := v)) p xs = links nx pv p xs"
  by (induction xs arbitrary: p) auto

lemma links_nth:
  "links nx pv p xs \<Longrightarrow> i < length xs \<Longrightarrow>
     nx ((p # xs) ! i) = Some (xs ! i) \<and> pv (xs ! i) = Some ((p # xs) ! i)"
proof (induction xs arbitrary: p i)
  case Nil
  then show ?case by simp
next
  case (Cons x xs)
  then show ?case by (cases i) auto
qed

lemma links_insert_here:
  assumes "links nx pv t (c # ws)" and "t \<notin> set (butlast (c # ws))" and "c \<notin> set ws"
    and "b \<noteq> t" and "b \<noteq> c" and "b \<notin> set ws"
  shows "links (nx(b \<mapsto> c, t \<mapsto> b)) (pv(b \<mapsto> t, c \<mapsto> b)) t (b # c # ws)"
proof -
  have "b \<notin> set (butlast (c # ws))" using assms(5,6) by (auto dest: in_set_butlastD)
  then show ?thesis using assms
    by (simp add: links_next_upd links_prev_upd)
qed

lemma links_insert:
  assumes l: "links nx pv p xs" and dec: "p # xs = us @ t # c # ws"
    and d1: "distinct (butlast (p # xs))" and d2: "distinct xs"
    and b: "b \<notin> set (p # xs)"
  shows "links (nx(b \<mapsto> c, t \<mapsto> b)) (pv(b \<mapsto> t, c \<mapsto> b)) p (tl (us @ t # b # c # ws))"
proof -
  have "butlast (p # xs) = us @ t # butlast (c # ws)"
    unfolding dec by (simp add: butlast_append)
  with d1 have d1': "distinct (us @ t # butlast (c # ws))" by simp
  have bs: "b \<notin> set us" "b \<noteq> t" "b \<noteq> c" "b \<notin> set ws"
    using b unfolding dec by auto
  show ?thesis
  proof (cases us)
    case Nil
    with dec have e: "p = t" "xs = c # ws" by auto
    have "links (nx(b \<mapsto> c, t \<mapsto> b)) (pv(b \<mapsto> t, c \<mapsto> b)) t (b # c # ws)"
      using l d1' d2 bs unfolding e by (intro links_insert_here) auto
    then show ?thesis unfolding Nil e by simp
  next
    case (Cons u us')
    with dec have e: "u = p" "xs = us' @ [t] @ c # ws" by auto
    from l have l1: "links nx pv p (us' @ [t])" and l2: "links nx pv t (c # ws)"
      unfolding e by (simp_all add: links_append)
    have "links (nx(b \<mapsto> c, t \<mapsto> b)) (pv(b \<mapsto> t, c \<mapsto> b)) t (b # c # ws)"
      using l2 d1' d2 bs unfolding e by (intro links_insert_here) auto
    moreover have "links (nx(b \<mapsto> c, t \<mapsto> b)) (pv(b \<mapsto> t, c \<mapsto> b)) p (us' @ [t])"
      using l1 d1' d2 bs unfolding Cons e
      by (simp add: links_next_upd links_prev_upd butlast_append)
    ultimately have "links (nx(b \<mapsto> c, t \<mapsto> b)) (pv(b \<mapsto> t, c \<mapsto> b)) p ((us' @ [t]) @ b # c # ws)"
      by (subst links_append) simp
    then show ?thesis unfolding Cons e by simp
  qed
qed

lemma links_remove:
  assumes l: "links nx pv p xs" and dec: "p # xs = us @ a # t # c # ws"
    and d1: "distinct (butlast (p # xs))" and d2: "distinct xs"
  shows "links (nx(a \<mapsto> c, t \<mapsto> t)) (pv(c \<mapsto> a, t \<mapsto> t)) p (tl (us @ a # c # ws))"
proof -
  have "butlast (p # xs) = us @ a # t # butlast (c # ws)"
    unfolding dec by (simp add: butlast_append)
  with d1 have d1': "distinct (us @ a # t # butlast (c # ws))" by simp
  have xs: "xs = tl (us @ [a]) @ t # c # ws" using dec by (cases us) auto
  have pp: "p = hd (us @ [a])" using dec by (cases us) auto
  have la: "last (hd (us @ [a]) # tl (us @ [a])) = a" by (cases us) auto
  have bl2: "butlast (hd (us @ [a]) # tl (us @ [a])) = us" by (cases us) auto
  from d2 have d2': "distinct (tl (us @ [a]) @ t # c # ws)" unfolding xs .
  from l have l0: "links nx pv (hd (us @ [a])) (tl (us @ [a]) @ t # c # ws)"
    unfolding pp xs .
  from l0 have l1: "links nx pv (hd (us @ [a])) (tl (us @ [a]))"
    and l2: "links nx pv c ws"
    by (simp_all add: links_append la)
  have "a \<notin> set (butlast (c # ws))" "t \<notin> set (butlast (c # ws))"
    using d1' by auto
  then have "links (nx(a \<mapsto> c, t \<mapsto> t)) (pv(c \<mapsto> a, t \<mapsto> t)) c ws"
    using l2 d2' by (simp add: links_next_upd links_prev_upd)
  moreover have "links (nx(a \<mapsto> c, t \<mapsto> t)) (pv(c \<mapsto> a, t \<mapsto> t)) (hd (us @ [a])) (tl (us @ [a]))"
    using l1 d1' d2' by (simp add: links_next_upd links_prev_upd bl2)
  moreover have "a \<noteq> t" using d1' by auto
  moreover have "c \<noteq> t" using d2' by auto
  moreover have "tl (us @ a # c # ws) = tl (us @ [a]) @ c # ws" by (cases us) auto
  ultimately show ?thesis unfolding pp
    by (simp add: links_append la)
qed

subsection \<open>Rings\<close>

lemma ring_empty: "ring nx pv hdr [] = (nx hdr = Some hdr \<and> pv hdr = Some hdr)"
  by (auto simp: ring_def)

lemma cycle_nth: "i \<le> length ns \<Longrightarrow> (hdr # ns @ [hdr]) ! i = (hdr # ns) ! i"
  using nth_append [of "hdr # ns" "[hdr]" i] by simp

lemma ring_next_nth:
  assumes "ring nx pv hdr ns" and "i \<le> length ns"
  shows "nx ((hdr # ns) ! i) = Some ((ns @ [hdr]) ! i)"
proof -
  have "links nx pv hdr (ns @ [hdr])" using assms(1) by (simp add: ring_def)
  from links_nth [OF this, of i] assms(2)
  have "nx ((hdr # ns @ [hdr]) ! i) = Some ((ns @ [hdr]) ! i)" by simp
  then show ?thesis using assms(2) by (simp only: cycle_nth)
qed

lemma ring_prev_nth:
  assumes "ring nx pv hdr ns" and "i \<le> length ns"
  shows "pv ((ns @ [hdr]) ! i) = Some ((hdr # ns) ! i)"
proof -
  have "links nx pv hdr (ns @ [hdr])" using assms(1) by (simp add: ring_def)
  from links_nth [OF this, of i] assms(2)
  have "pv ((ns @ [hdr]) ! i) = Some ((hdr # ns @ [hdr]) ! i)" by simp
  then show ?thesis using assms(2) by (simp only: cycle_nth)
qed

text \<open>Position \<open>i\<close> of the cycle \<open>hdr # ns\<close>: the header is position 0, the elements 1 to \<open>length ns\<close>.\<close>

lemma ring_next_pos:
  assumes "ring nx pv hdr ns" and "i \<le> length ns"
  shows "nx ((hdr # ns) ! i) = Some (if i = length ns then hdr else (hdr # ns) ! Suc i)"
  using ring_next_nth [OF assms] assms(2) by (auto simp: nth_append)

lemma ring_prev_pos:
  assumes "ring nx pv hdr ns" and "i \<le> length ns"
  shows "pv ((hdr # ns) ! i) = Some (if i = 0 then last (hdr # ns) else (hdr # ns) ! (i - 1))"
proof (cases i)
  case 0
  have "pv ((ns @ [hdr]) ! length ns) = Some ((hdr # ns) ! length ns)"
    using ring_prev_nth [OF assms(1), of "length ns"] by simp
  moreover have "(hdr # ns) ! length ns = last (hdr # ns)"
    using last_conv_nth [of "hdr # ns"] by simp
  ultimately show ?thesis using 0 by simp
next
  case (Suc j)
  then have "j \<le> length ns" "j < length ns" using assms(2) by auto
  from ring_prev_nth [OF assms(1) this(1)] this(2) Suc show ?thesis
    by (simp add: nth_append)
qed

lemma ring_insert:
  assumes r: "ring nx pv hdr ns" and i: "i \<le> length ns" and b: "b \<notin> set (hdr # ns)"
    and c: "nx ((hdr # ns) ! i) = Some c"
  shows "ring (nx(b \<mapsto> c, (hdr # ns) ! i \<mapsto> b)) (pv(b \<mapsto> (hdr # ns) ! i, c \<mapsto> b)) hdr
           (take i ns @ b # drop i ns)"
proof -
  let ?t = "(hdr # ns) ! i"
  let ?us = "take i (hdr # ns)"
  let ?vs = "drop (Suc i) (hdr # ns @ [hdr])"
  have len: "i < length (hdr # ns @ [hdr])" "Suc i < length (hdr # ns @ [hdr])" using i by auto
  have cc: "c = (ns @ [hdr]) ! i" using ring_next_nth [OF r i] c by simp
  have "hdr # ns @ [hdr] = take i (hdr # ns @ [hdr]) @ (hdr # ns @ [hdr]) ! i # drop (Suc i) (hdr # ns @ [hdr])"
    using len(1) by (rule id_take_nth_drop)
  moreover have "take i (hdr # ns @ [hdr]) = ?us" using i
    using take_append [of i "hdr # ns" "[hdr]"] by simp
  moreover have "drop (Suc i) (hdr # ns @ [hdr]) = c # drop (Suc i) (ns @ [hdr])"
    using len(2) cc Cons_nth_drop_Suc [of i "ns @ [hdr]"] by simp
  ultimately have dec: "hdr # ns @ [hdr] = ?us @ ?t # c # drop (Suc i) (ns @ [hdr])"
    using i by (simp only: cycle_nth)
  have l: "links nx pv hdr (ns @ [hdr])" and d: "distinct (hdr # ns)"
    using r by (simp_all add: ring_def)
  have d1: "distinct (butlast (hdr # ns @ [hdr]))"
    using d butlast_snoc [of "hdr # ns" hdr] by simp
  have d2: "distinct (ns @ [hdr])" using d by auto
  have b': "b \<notin> set (hdr # ns @ [hdr])" using b by auto
  from links_insert [OF l dec d1 d2 b']
  have l': "links (nx(b \<mapsto> c, ?t \<mapsto> b)) (pv(b \<mapsto> ?t, c \<mapsto> b)) hdr
             (tl (?us @ ?t # b # c # drop (Suc i) (ns @ [hdr])))" .
  have "?us @ [?t] = take (Suc i) (hdr # ns)"
    using take_Suc_conv_app_nth [of i "hdr # ns"] i by simp
  then have "?us @ ?t # b # c # drop (Suc i) (ns @ [hdr]) = take (Suc i) (hdr # ns) @ b # drop i (ns @ [hdr])"
    using len(2) cc Cons_nth_drop_Suc [of i "ns @ [hdr]"] by simp
  then have "tl (?us @ ?t # b # c # drop (Suc i) (ns @ [hdr])) = (take i ns @ b # drop i ns) @ [hdr]"
    using i by simp
  with l' have "links (nx(b \<mapsto> c, ?t \<mapsto> b)) (pv(b \<mapsto> ?t, c \<mapsto> b)) hdr ((take i ns @ b # drop i ns) @ [hdr])"
    by simp
  moreover have "distinct (hdr # take i ns @ b # drop i ns)"
  proof -
    have "set (take i ns) \<inter> set (drop i ns) = {}"
      using d set_take_disj_set_drop_if_distinct [of ns i i] by simp
    moreover have "distinct (take i ns)" "distinct (drop i ns)" using d by simp_all
    moreover have "hdr \<notin> set (take i ns)" "hdr \<notin> set (drop i ns)"
      using d by (auto dest: in_set_takeD in_set_dropD)
    moreover have "b \<notin> set (take i ns)" "b \<notin> set (drop i ns)" "b \<noteq> hdr"
      using b by (auto dest: in_set_takeD in_set_dropD)
    ultimately show ?thesis by auto
  qed
  ultimately show ?thesis unfolding ring_def by simp
qed

lemma links_chain:
  "links nx pv p xs \<Longrightarrow> last (p # xs) = q \<Longrightarrow> links nx pv q ys \<Longrightarrow> links nx pv p (xs @ ys)"
  by (simp add: links_append)

lemma ring_remove:
  assumes r: "ring nx pv hdr ns" and j: "j < length ns"
  shows "ring (nx((hdr # ns) ! j \<mapsto> (ns @ [hdr]) ! Suc j, ns ! j \<mapsto> ns ! j))
              (pv((ns @ [hdr]) ! Suc j \<mapsto> (hdr # ns) ! j, ns ! j \<mapsto> ns ! j)) hdr
              (take j ns @ drop (Suc j) ns)"
proof -
  let ?L = "hdr # ns @ [hdr]"
  let ?a = "(hdr # ns) ! j" and ?t = "ns ! j" and ?c = "(ns @ [hdr]) ! Suc j"
  have "?L = take j ?L @ ?L ! j # drop (Suc j) ?L"
    using j by (intro id_take_nth_drop) simp
  also have "drop (Suc j) ?L = ?L ! Suc j # drop (Suc (Suc j)) ?L"
    using j by (intro Cons_nth_drop_Suc [symmetric]) simp
  also have "drop (Suc (Suc j)) ?L = ?L ! Suc (Suc j) # drop (Suc (Suc (Suc j))) ?L"
    using j by (intro Cons_nth_drop_Suc [symmetric]) simp
  finally have "?L = take j ?L @ ?L ! j # ?L ! Suc j # ?L ! Suc (Suc j) # drop (Suc (Suc (Suc j))) ?L" .
  moreover have "?L ! j = ?a" using j cycle_nth [of j ns hdr] by simp
  moreover have "?L ! Suc j = ?t" using j by (simp add: nth_append)
  moreover have "?L ! Suc (Suc j) = ?c" by simp
  ultimately have dec: "?L = take j ?L @ ?a # ?t # ?c # drop (Suc (Suc (Suc j))) ?L"
    by simp
  have l: "links nx pv hdr (ns @ [hdr])" and d: "distinct (hdr # ns)"
    using r by (simp_all add: ring_def)
  have d1: "distinct (butlast ?L)"
    using d butlast_snoc [of "hdr # ns" hdr] by simp
  have d2: "distinct (ns @ [hdr])" using d by auto
  from links_remove [OF l dec d1 d2]
  have l': "links (nx(?a \<mapsto> ?c, ?t \<mapsto> ?t)) (pv(?c \<mapsto> ?a, ?t \<mapsto> ?t)) hdr
              (tl (take j ?L @ ?a # ?c # drop (Suc (Suc (Suc j))) ?L))" .
  have "take j ?L @ [?a] = take (Suc j) ?L"
    using take_Suc_conv_app_nth [of j ?L] j \<open>?L ! j = ?a\<close> by simp
  moreover have "?c # drop (Suc (Suc (Suc j))) ?L = drop (Suc (Suc j)) ?L"
    using Cons_nth_drop_Suc [of "Suc (Suc j)" ?L] j by simp
  ultimately have "take j ?L @ ?a # ?c # drop (Suc (Suc (Suc j))) ?L
        = take (Suc j) ?L @ drop (Suc (Suc j)) ?L"
    by (metis append_Cons append_Nil append_assoc)
  also have "\<dots> = hdr # (take j ns @ drop (Suc j) ns) @ [hdr]"
    using j by simp
  finally have "links (nx(?a \<mapsto> ?c, ?t \<mapsto> ?t)) (pv(?c \<mapsto> ?a, ?t \<mapsto> ?t)) hdr
      ((take j ns @ drop (Suc j) ns) @ [hdr])"
    using l' by simp
  moreover have "distinct (hdr # take j ns @ drop (Suc j) ns)"
  proof -
    have "set (take j ns) \<inter> set (drop (Suc j) ns) = {}"
      using d set_take_disj_set_drop_if_distinct [of ns j "Suc j"] by simp
    moreover have "distinct (take j ns)" "distinct (drop (Suc j) ns)" using d by simp_all
    moreover have "hdr \<notin> set (take j ns)" "hdr \<notin> set (drop (Suc j) ns)"
      using d by (auto dest: in_set_takeD in_set_dropD)
    ultimately show ?thesis by auto
  qed
  ultimately show ?thesis unfolding ring_def by simp
qed

lemma ring_splice:
  assumes ra: "ring nx pv ha as" and rb: "ring nx pv hb bs"
    and disj: "set (ha # as) \<inter> set (hb # bs) = {}"
  shows "ring (nx(last (ha # as) \<mapsto> hd (bs @ [hb]), hb \<mapsto> ha))
              (pv(ha \<mapsto> hb, hd (bs @ [hb]) \<mapsto> last (ha # as))) ha (as @ bs @ [hb])"
proof -
  let ?a = "last (ha # as)" and ?bn = "hd (bs @ [hb])"
  let ?nx = "nx(?a \<mapsto> ?bn, hb \<mapsto> ha)" and ?pv = "pv(ha \<mapsto> hb, ?bn \<mapsto> ?a)"
  have la: "links nx pv ha as" and da: "distinct (ha # as)"
    using ra by (simp_all add: ring_def links_append)
  have lb: "links nx pv hb (bs @ [hb])" and db: "distinct (hb # bs)"
    using rb by (simp_all add: ring_def)
  have ain: "?a \<in> set (ha # as)" by (rule last_in_set) simp
  have bnin: "?bn \<in> set (hb # bs)" by (cases bs) auto
  have a_nb: "?a \<notin> set (hb # bs)" using ain disj by blast
  have bn_na: "?bn \<notin> set (ha # as)" using bnin disj by blast
  have hb_na: "hb \<notin> set (ha # as)" using disj by auto
  have a_bl: "?a \<notin> set (butlast (ha # as))"
    using da distinct_butlast [of "ha # as"]
    by (metis append_butlast_last_id distinct.simps(2) distinct_append list.distinct(1)
        not_distinct_conv_prefix disjoint_iff list.set_intros(1))
  have 1: "links ?nx ?pv ha as"
  proof -
    have "hb \<notin> set (butlast (ha # as))" using hb_na by (auto dest: in_set_butlastD)
    moreover have "ha \<notin> set as" "?bn \<notin> set as" using da bn_na by auto
    ultimately show ?thesis using la a_bl
      by (simp add: links_next_upd links_prev_upd del: butlast.simps last.simps)
  qed
  have 2: "links ?nx ?pv ?a (bs @ [hb])"
  proof (cases bs)
    case Nil
    then show ?thesis using a_nb by auto
  next
    case (Cons y ys)
    have "links nx pv y (ys @ [hb])" using lb Cons by simp
    moreover have "?a \<notin> set (butlast (y # ys @ [hb]))" "hb \<notin> set (butlast (y # ys @ [hb]))"
      using a_nb db Cons butlast_snoc [of "y # ys" hb] by auto
    moreover have "ha \<notin> set (ys @ [hb])" "y \<notin> set (ys @ [hb])"
      using disj db Cons by auto
    ultimately have "links ?nx ?pv y (ys @ [hb])"
      using Cons by (simp add: links_next_upd links_prev_upd del: butlast.simps last.simps)
    moreover have "?nx ?a = Some y" using Cons a_nb by auto
    moreover have "?pv y = Some ?a" using Cons by auto
    ultimately show ?thesis using Cons by simp
  qed
  have 3: "links ?nx ?pv hb [ha]" using bn_na by auto
  have e: "last (?a # bs @ [hb]) = hb" by simp
  have "links ?nx ?pv ha (as @ (bs @ [hb]) @ [ha])"
    by (rule links_chain [OF 1 refl links_chain [OF 2 e 3]])
  moreover have "distinct (ha # as @ bs @ [hb])" using da db disj by auto
  ultimately show ?thesis unfolding ring_def by simp
qed

section \<open>The operations of List on a well-formed list\<close>

subsection \<open>Moving the cursor\<close>

lemma get_list_upd_list:
  "get_list (upd_list s this f) a = (if a = this then map_option f (get_list s this) else get_list s a)"
  by (simp add: get_list_def upd_list_def)

lemma nodes_upd_list: "nodes (upd_list s this f) = nodes s"
  by (simp add: upd_list_def)

lemma get_list_nodes_update: "get_list (s\<lparr>nodes := h\<rparr>) a = get_list s a"
  by (simp add: get_list_def)

lemma set_win_upd:
  "get_list s this = Some L \<Longrightarrow> set_win s this v = Some (upd_list s this (\<lambda>L. L\<lparr>win := v\<rparr>))"
  by (auto simp: set_win_def upd_list_def get_list_def split: if_splits)

lemma set_index_upd:
  "get_list s this = Some L \<Longrightarrow> set_index s this v = Some (upd_list s this (\<lambda>L. L\<lparr>l_index := v\<rparr>))"
  by (auto simp: set_index_def upd_list_def get_list_def split: if_splits)

lemma set_length_upd:
  "get_list s this = Some L \<Longrightarrow> set_length s this v = Some (upd_list s this (\<lambda>L. L\<lparr>l_length := v\<rparr>))"
  by (auto simp: set_length_def upd_list_def get_list_def split: if_splits)

lemmas list_field_defs = get_header_def get_win_def get_index_def get_length_def

lemmas list_simps = get_list_upd_list nodes_upd_list get_list_nodes_update
  set_win_upd set_index_upd set_length_upd list_field_defs

lemma ring_live:
  assumes "ring (get_next h) (get_prev h) hdr ns" and "a \<in> set (hdr # ns)"
  shows "live h a"
proof -
  from assms(2) obtain i where "i < length (hdr # ns)" "(hdr # ns) ! i = a"
    by (meson in_set_conv_nth)
  then have "i \<le> length ns" by simp
  from ring_next_nth [OF assms(1) this] \<open>(hdr # ns) ! i = a\<close>
  show ?thesis by (auto intro: get_next_live)
qed

lemma ring_fresh:
  assumes "ring (get_next h) (get_prev h) hdr ns"
  shows "length h \<notin> set (hdr # ns)"
proof
  assume "length h \<in> set (hdr # ns)"
  from ring_live [OF assms this] show False by (auto dest: live_less)
qed

lemma rep_live: "rep s this hdr ns i idx \<Longrightarrow> a \<in> set (hdr # ns) \<Longrightarrow> live (nodes s) a"
  by (auto simp: rep_def intro: ring_live simp del: set_simps)

lemma nth_cycle_mem: "i \<le> length ns \<Longrightarrow> (hdr # ns) ! i \<in> set (hdr # ns)"
  by (rule nth_mem) simp

lemma rep_win_live: "rep s this hdr ns i idx \<Longrightarrow> live (nodes s) ((hdr # ns) ! i)"
  using rep_live [of s this hdr ns i idx "(hdr # ns) ! i"] nth_cycle_mem [of i ns hdr]
  by (simp add: rep_def)

lemma succ_pos_le: "i \<le> n \<Longrightarrow> succ_pos n i \<le> n"
  by (simp add: succ_pos_def)

lemma pred_pos_le: "i \<le> n \<Longrightarrow> pred_pos n i \<le> n"
  by (auto simp: pred_pos_def)

lemma rep_next:
  assumes "rep s this hdr ns i idx"
  shows "get_next (nodes s) ((hdr # ns) ! i) = Some ((hdr # ns) ! succ_pos (length ns) i)"
  using assms ring_next_pos [of "get_next (nodes s)" "get_prev (nodes s)" hdr ns i]
  by (auto simp: rep_def succ_pos_def)

lemma rep_prev:
  assumes "rep s this hdr ns i idx"
  shows "get_prev (nodes s) ((hdr # ns) ! i) = Some ((hdr # ns) ! pred_pos (length ns) i)"
proof -
  have "(hdr # ns) ! length ns = last (hdr # ns)"
    using last_conv_nth [of "hdr # ns"] by simp
  then show ?thesis
    using assms ring_prev_pos [of "get_next (nodes s)" "get_prev (nodes s)" hdr ns i]
    by (auto simp: rep_def pred_pos_def)
qed

lemma rep_val:
  assumes "rep s this hdr ns i idx" and "j \<le> length ns"
  shows "\<exists>v. get_val (nodes s) ((hdr # ns) ! j) = Some v"
  using rep_live [OF assms(1) nth_cycle_mem [OF assms(2)]] by (rule live_val)

lemma List_first_rep:
  assumes r: "rep s this hdr ns i idx"
  shows "\<exists>v s'. List_first this s = Some (v, s') \<and>
           get_val (nodes s) ((hdr # ns) ! succ_pos (length ns) 0) = Some v \<and>
           rep s' this hdr ns (succ_pos (length ns) 0) 1 \<and> nodes s' = nodes s"
proof -
  have g: "get_list s this =
      Some \<lparr>header = hdr, win = (hdr # ns) ! i, l_index = idx, l_length = int (length ns)\<rparr>"
    using r by (simp add: rep_def)
  have rg: "ring (get_next (nodes s)) (get_prev (nodes s)) hdr ns" using r by (simp add: rep_def)
  have nx: "get_next (nodes s) hdr = Some ((hdr # ns) ! succ_pos (length ns) 0)"
    using ring_next_pos [OF rg, of 0] by (simp add: succ_pos_def)
  obtain v where v: "get_val (nodes s) ((hdr # ns) ! succ_pos (length ns) 0) = Some v"
    using rep_val [OF r succ_pos_le [of 0 "length ns"]] by auto
  show ?thesis
    using g nx v r
    by (simp add: List_first_def ListNode_next_def list_simps rep_def succ_pos_le)
qed

lemma rep_list:
  "rep s this hdr ns i idx \<Longrightarrow> get_list s this =
      Some \<lparr>header = hdr, win = (hdr # ns) ! i, l_index = idx, l_length = int (length ns)\<rparr>"
  by (simp add: rep_def)

lemma List_last_rep:
  assumes r: "rep s this hdr ns i idx"
  shows "\<exists>v s'. List_last this s = Some (v, s') \<and>
           get_val (nodes s) ((hdr # ns) ! length ns) = Some v \<and>
           rep s' this hdr ns (length ns) (int (length ns)) \<and> nodes s' = nodes s"
proof -
  note g = rep_list [OF r]
  have rg: "ring (get_next (nodes s)) (get_prev (nodes s)) hdr ns" using r by (simp add: rep_def)
  have "(hdr # ns) ! length ns = last (hdr # ns)"
    using last_conv_nth [of "hdr # ns"] by simp
  then have pv: "get_prev (nodes s) hdr = Some ((hdr # ns) ! length ns)"
    using ring_prev_pos [OF rg, of 0] by simp
  obtain v where v: "get_val (nodes s) ((hdr # ns) ! length ns) = Some v"
    using rep_val [OF r order_refl] by auto
  show ?thesis
    using g pv v r
    by (simp add: List_last_def ListNode_prev_def list_simps rep_def)
qed

lemma List_next_rep:
  assumes r: "rep s this hdr ns i idx"
  shows "\<exists>v s'. List_next this s = Some (v, s') \<and>
           get_val (nodes s) ((hdr # ns) ! succ_pos (length ns) i) = Some v \<and>
           rep s' this hdr ns (succ_pos (length ns) i)
             (if idx + 1 > int (length ns) then 0 else idx + 1) \<and>
           nodes s' = nodes s"
proof -
  note g = rep_list [OF r]
  have i: "i \<le> length ns" using r by (simp add: rep_def)
  note nx = rep_next [OF r]
  obtain v where v: "get_val (nodes s) ((hdr # ns) ! succ_pos (length ns) i) = Some v"
    using rep_val [OF r succ_pos_le [OF i]] by auto
  show ?thesis
    using g nx v r
    by (simp add: List_next_def ListNode_next_def list_simps rep_def succ_pos_le)
qed

lemma List_prev_rep:
  assumes r: "rep s this hdr ns i idx"
  shows "\<exists>v s'. List_prev this s = Some (v, s') \<and>
           get_val (nodes s) ((hdr # ns) ! pred_pos (length ns) i) = Some v \<and>
           rep s' this hdr ns (pred_pos (length ns) i)
             (if idx - 1 < 0 then int (length ns) + (idx - 1) + 1 else idx - 1) \<and>
           nodes s' = nodes s"
proof -
  note g = rep_list [OF r]
  have i: "i \<le> length ns" using r by (simp add: rep_def)
  note pv = rep_prev [OF r]
  obtain v where v: "get_val (nodes s) ((hdr # ns) ! pred_pos (length ns) i) = Some v"
    using rep_val [OF r pred_pos_le [OF i]] by auto
  show ?thesis
    using g pv v r
    by (simp add: List_prev_def ListNode_prev_def list_simps rep_def pred_pos_le)
qed

lemma List_val_rep:
  assumes r: "rep s this hdr ns i idx"
  shows "\<exists>v. List_val this s = Some (v, s) \<and> get_val (nodes s) ((hdr # ns) ! i) = Some v"
proof -
  note g = rep_list [OF r]
  have i: "i \<le> length ns" using r by (simp add: rep_def)
  obtain v where v: "get_val (nodes s) ((hdr # ns) ! i) = Some v"
    using rep_val [OF r i] by auto
  show ?thesis using g v by (simp add: List_val_def list_simps)
qed

lemma cycle_nth_eq_hdr:
  "distinct (hdr # ns) \<Longrightarrow> i \<le> length ns \<Longrightarrow> ((hdr # ns) ! i = hdr) = (i = 0)"
  using nth_eq_iff_index_eq [of "hdr # ns" i 0] by auto

lemma rep_win_hdr:
  "rep s this hdr ns i idx \<Longrightarrow> ((hdr # ns) ! i = hdr) = (i = 0)"
  by (rule cycle_nth_eq_hdr) (simp_all add: rep_def ring_def)

lemma ring_upd_other:
  "b \<notin> set (hdr # ns) \<Longrightarrow> ring (nx(b := x)) (pv(b := y)) hdr ns = ring nx pv hdr ns"
  using butlast_snoc [of "hdr # ns" hdr]
  by (simp add: ring_def links_next_upd links_prev_upd)

lemma List_val_set_rep:
  assumes r: "rep s this hdr ns i idx"
  shows "if i = 0 then List_val_set this v s = Some (NULL, s)
         else \<exists>old s'. List_val_set this v s = Some (old, s') \<and>
           get_val (nodes s) ((hdr # ns) ! i) = Some old \<and>
           rep s' this hdr ns i idx \<and>
           get_val (nodes s') = (get_val (nodes s))((hdr # ns) ! i \<mapsto> v)"
proof (cases "i = 0")
  case True
  then show ?thesis using rep_list [OF r]
    by (simp add: List_val_set_def list_simps)
next
  case False
  note g = rep_list [OF r]
  have i: "i \<le> length ns" using r by (simp add: rep_def)
  have ne: "(hdr # ns) ! i \<noteq> hdr" using rep_win_hdr [OF r] False by simp
  obtain old where old: "get_val (nodes s) ((hdr # ns) ! i) = Some old"
    using rep_val [OF r i] by auto
  obtain h' where h': "set_val (nodes s) ((hdr # ns) ! i) v = Some h'"
      "get_val h' = (get_val (nodes s))((hdr # ns) ! i \<mapsto> v)"
      "get_next h' = get_next (nodes s)" "get_prev h' = get_prev (nodes s)"
    using set_val_eff [OF rep_win_live [OF r]] by blast
  have "rep (s\<lparr>nodes := h'\<rparr>) this hdr ns i idx"
    using r h' ne by (simp add: rep_def list_simps)
  then show ?thesis
    using False g ne old h' by (simp add: List_val_set_def list_simps)
qed

subsection \<open>Random access\<close>

lemma rep_set_win:
  assumes r: "rep s this hdr ns i idx" and j: "j \<le> length ns"
  shows "\<exists>s'. set_win s this ((hdr # ns) ! j) = Some s' \<and> rep s' this hdr ns j idx \<and>
           nodes s' = nodes s"
  using rep_list [OF r] r j by (simp add: list_simps rep_def)

lemma GetAt_backward_rep:
  "rep s this hdr ns i idx \<Longrightarrow>
     \<exists>s'. GetAt_backward this j pt s = Some s' \<and>
       rep s' this hdr ns ((pred_pos (length ns) ^^ nat (j - pt)) i) idx \<and> nodes s' = nodes s"
proof (induction this j pt s arbitrary: i rule: GetAt_backward.induct)
  case (1 this j pt s)
  show ?case
  proof (cases "j > pt")
    case False
    then show ?thesis using "1.prems" by (simp add: GetAt_backward.simps [of this j pt s])
  next
    case True
    note r = "1.prems"
    have i: "i \<le> length ns" using r by (simp add: rep_def)
    let ?p = "pred_pos (length ns) i"
    obtain s1 where s1: "set_win s this ((hdr # ns) ! ?p) = Some s1"
        "rep s1 this hdr ns ?p idx" "nodes s1 = nodes s"
      using rep_set_win [OF r pred_pos_le [OF i]] by blast
    have w: "get_win s this = Some ((hdr # ns) ! i)" using rep_list [OF r] by (simp add: list_simps)
    from "1.IH" [OF True w rep_prev [OF r] s1(1) s1(2)]
    obtain s' where s': "GetAt_backward this (j - 1) pt s1 = Some s'"
        "rep s' this hdr ns ((pred_pos (length ns) ^^ nat (j - 1 - pt)) ?p) idx"
        "nodes s' = nodes s1"
      by blast
    have "nat (j - pt) = Suc (nat (j - 1 - pt))" using True by simp
    then have "(pred_pos (length ns) ^^ nat (j - pt)) i
        = (pred_pos (length ns) ^^ nat (j - 1 - pt)) ?p"
      by (simp add: funpow_swap1)
    moreover have "GetAt_backward this j pt s = Some s'"
      using True w rep_prev [OF r] s1(1) s'(1)
      by (simp add: GetAt_backward.simps [of this j pt s])
    ultimately show ?thesis using s' s1 by simp
  qed
qed

lemma GetAt_forward_rep:
  "rep s this hdr ns i idx \<Longrightarrow>
     \<exists>s'. GetAt_forward this j pt s = Some s' \<and>
       rep s' this hdr ns ((succ_pos (length ns) ^^ nat (pt - j)) i) idx \<and> nodes s' = nodes s"
proof (induction this j pt s arbitrary: i rule: GetAt_forward.induct)
  case (1 this j pt s)
  show ?case
  proof (cases "j < pt")
    case False
    then show ?thesis using "1.prems" by (simp add: GetAt_forward.simps [of this j pt s])
  next
    case True
    note r = "1.prems"
    have i: "i \<le> length ns" using r by (simp add: rep_def)
    let ?p = "succ_pos (length ns) i"
    obtain s1 where s1: "set_win s this ((hdr # ns) ! ?p) = Some s1"
        "rep s1 this hdr ns ?p idx" "nodes s1 = nodes s"
      using rep_set_win [OF r succ_pos_le [OF i]] by blast
    have w: "get_win s this = Some ((hdr # ns) ! i)" using rep_list [OF r] by (simp add: list_simps)
    from "1.IH" [OF True w rep_next [OF r] s1(1) s1(2)]
    obtain s' where s': "GetAt_forward this (j + 1) pt s1 = Some s'"
        "rep s' this hdr ns ((succ_pos (length ns) ^^ nat (pt - (j + 1))) ?p) idx"
        "nodes s' = nodes s1"
      by blast
    have "nat (pt - j) = Suc (nat (pt - (j + 1)))" using True by simp
    then have "(succ_pos (length ns) ^^ nat (pt - j)) i
        = (succ_pos (length ns) ^^ nat (pt - (j + 1))) ?p"
      by (simp add: funpow_swap1)
    moreover have "GetAt_forward this j pt s = Some s'"
      using True w rep_next [OF r] s1(1) s'(1)
      by (simp add: GetAt_forward.simps [of this j pt s])
    ultimately show ?thesis using s' s1 by simp
  qed
qed

lemma pred_pos_funpow: "k \<le> i \<Longrightarrow> (pred_pos n ^^ k) i = i - k"
  by (induction k) (auto simp: pred_pos_def)

lemma succ_pos_funpow: "i + k \<le> n \<Longrightarrow> (succ_pos n ^^ k) i = i + k"
  by (induction k) (auto simp: succ_pos_def)

lemma funpow_pos_le:
  "i \<le> n \<Longrightarrow> (pred_pos n ^^ k) i \<le> n" "i \<le> n \<Longrightarrow> (succ_pos n ^^ k) i \<le> n"
  by (induction k) (auto simp: pred_pos_le succ_pos_le)

lemma GetAt_pos_le: "i \<le> n \<Longrightarrow> GetAt_pos n i idx pt \<le> n"
  by (simp add: GetAt_pos_def funpow_pos_le)

lemma List_GetAt_rep:
  assumes r: "rep s this hdr ns i idx"
  shows "if pt < 1 \<or> pt > int (length ns) then List_GetAt this pt s = Some (NULL, s)
         else \<exists>v s'. List_GetAt this pt s = Some (v, s') \<and>
           get_val (nodes s) ((hdr # ns) ! GetAt_pos (length ns) i idx pt) = Some v \<and>
           rep s' this hdr ns (GetAt_pos (length ns) i idx pt) pt \<and> nodes s' = nodes s"
proof (cases "pt < 1 \<or> pt > int (length ns)")
  case True
  then show ?thesis using rep_list [OF r] by (auto simp: List_GetAt_def list_simps)
next
  case False
  note g = rep_list [OF r]
  have i: "i \<le> length ns" using r by (simp add: rep_def)
  let ?q = "GetAt_pos (length ns) i idx pt"
  obtain v where v: "get_val (nodes s) ((hdr # ns) ! ?q) = Some v"
    using rep_val [OF r GetAt_pos_le [OF i]] by blast
  consider (lt) "pt < idx" | (gt) "pt > idx" | (eq) "pt = idx" by linarith
  then show ?thesis
  proof cases
    case lt
    obtain s1 where s1: "GetAt_backward this idx pt s = Some s1"
        "rep s1 this hdr ns ?q idx" "nodes s1 = nodes s"
      using GetAt_backward_rep [OF r, of idx pt] lt by (auto simp: GetAt_pos_def)
    have "rep (upd_list s1 this (\<lambda>L. L\<lparr>l_index := pt\<rparr>)) this hdr ns ?q pt"
      using s1(2) by (simp add: rep_def list_simps)
    then show ?thesis
      using False lt g v s1 rep_list [OF s1(2)]
      by (simp add: List_GetAt_def list_simps)
  next
    case gt
    obtain s1 where s1: "GetAt_forward this idx pt s = Some s1"
        "rep s1 this hdr ns ?q idx" "nodes s1 = nodes s"
      using GetAt_forward_rep [OF r, of idx pt] gt by (auto simp: GetAt_pos_def)
    have "rep (upd_list s1 this (\<lambda>L. L\<lparr>l_index := pt\<rparr>)) this hdr ns ?q pt"
      using s1(2) by (simp add: rep_def list_simps)
    then show ?thesis
      using False gt g v s1 rep_list [OF s1(2)]
      by (simp add: List_GetAt_def list_simps)
  next
    case eq
    then have q: "?q = i" by (simp add: GetAt_pos_def)
    show ?thesis
      using False eq g v r unfolding q
      by (simp add: List_GetAt_def list_simps)
  qed
qed

subsection \<open>Insertion\<close>

lemma nth_cycle_insert:
  "i \<le> length ns \<Longrightarrow> (hdr # take j ns @ b # drop j ns) ! (if i \<le> j then i else Suc i) = (hdr # ns) ! i"
  by (cases i) (auto simp: nth_append min_def)

text \<open>Allocate a node and link it after the node at position \<open>j\<close> of the cycle.\<close>

lemma insert_new_node:
  assumes rg: "ring (get_next h) (get_prev h) hdr ns" and j: "j \<le> length ns"
  shows "\<exists>h'. ListNode_insert ((hdr # ns) ! j) (length h) (snd (new_ListNode v h)) = Some (length h, h') \<and>
           ring (get_next h') (get_prev h') hdr (take j ns @ length h # drop j ns) \<and>
           get_val h' = (get_val h)(length h \<mapsto> v) \<and> length h' = Suc (length h)"
proof -
  let ?b = "length h" and ?t = "(hdr # ns) ! j"
  obtain h0 where h0: "new_ListNode v h = (?b, h0)" by (simp add: new_ListNode_def)
  note e0 = new_ListNode_eff [OF h0]
  have fresh: "?b \<notin> set (hdr # ns)" using ring_fresh [OF rg] .
  have rg0: "ring (get_next h0) (get_prev h0) hdr ns"
    using rg fresh e0 ring_upd_other [of ?b hdr ns] by simp
  obtain c where c: "get_next h0 ?t = Some c" "c \<in> set (hdr # ns)"
    using ring_next_pos [OF rg0 j] j nth_cycle_mem [of "Suc j" ns hdr] by (auto split: if_splits)
  have lb: "live h0 ?b" using e0 by (simp add: live_iff_next)
  have lc: "live h0 c" using ring_live [OF rg0 c(2)] .
  obtain h' where h': "ListNode_insert ?t ?b h0 = Some (?b, h')"
      "get_next h' = (get_next h0)(?b \<mapsto> c, ?t \<mapsto> ?b)"
      "get_prev h' = (get_prev h0)(?b \<mapsto> ?t, c \<mapsto> ?b)"
      "get_val h' = get_val h0" "length h' = length h0"
    using ListNode_insert_eff [OF c(1) lb lc] by blast
  have "ring (get_next h') (get_prev h') hdr (take j ns @ ?b # drop j ns)"
    unfolding h'(2,3) using ring_insert [OF rg0 j fresh c(1)] .
  then show ?thesis using h' h0 e0 by simp
qed

lemma List_insert_rep:
  assumes r: "rep s this hdr ns i idx"
  shows "\<exists>s'. List_insert this v s = Some (v, s') \<and>
           rep s' this hdr (take i ns @ length (nodes s) # drop i ns) i idx \<and>
           get_val (nodes s') = (get_val (nodes s))(length (nodes s) \<mapsto> v)"
proof -
  note g = rep_list [OF r]
  have i: "i \<le> length ns" and rg: "ring (get_next (nodes s)) (get_prev (nodes s)) hdr ns"
    and hv: "get_val (nodes s) hdr = Some NULL"
    using r by (simp_all add: rep_def)
  let ?b = "length (nodes s)"
  obtain h' where h': "ListNode_insert ((hdr # ns) ! i) ?b (snd (new_ListNode v (nodes s))) = Some (?b, h')"
      "ring (get_next h') (get_prev h') hdr (take i ns @ ?b # drop i ns)"
      "get_val h' = (get_val (nodes s))(?b \<mapsto> v)"
    using insert_new_node [OF rg i] by blast
  have fresh: "?b \<noteq> hdr" using ring_fresh [OF rg] by auto
  have w: "(hdr # take i ns @ ?b # drop i ns) ! i = (hdr # ns) ! i"
    using nth_cycle_insert [OF i, of hdr i ?b] by simp
  have "rep (upd_list (s\<lparr>nodes := h'\<rparr>) this (\<lambda>L. L\<lparr>l_length := int (length ns) + 1\<rparr>)) this hdr
          (take i ns @ ?b # drop i ns) i idx"
    using g h' hv fresh i w by (simp add: rep_def list_simps)
  then show ?thesis
    using g h' by (simp add: List_insert_def new_ListNode_def list_simps split_def)
qed

lemma List_prepend_rep:
  assumes r: "rep s this hdr ns i idx"
  shows "\<exists>s'. List_prepend this v s = Some (v, s') \<and>
           rep s' this hdr (length (nodes s) # ns) (if i = 0 then 0 else Suc i)
             (if idx > 0 then idx + 1 else idx) \<and>
           get_val (nodes s') = (get_val (nodes s))(length (nodes s) \<mapsto> v)"
proof -
  note g = rep_list [OF r]
  have i: "i \<le> length ns" and rg: "ring (get_next (nodes s)) (get_prev (nodes s)) hdr ns"
    and hv: "get_val (nodes s) hdr = Some NULL"
    using r by (simp_all add: rep_def)
  let ?b = "length (nodes s)"
  obtain h' where h': "ListNode_insert hdr ?b (snd (new_ListNode v (nodes s))) = Some (?b, h')"
      "ring (get_next h') (get_prev h') hdr (?b # ns)"
      "get_val h' = (get_val (nodes s))(?b \<mapsto> v)"
    using insert_new_node [OF rg, of 0] by auto
  have fresh: "?b \<noteq> hdr" using ring_fresh [OF rg] by auto
  have w: "(hdr # ?b # ns) ! (if i = 0 then 0 else Suc i) = (hdr # ns) ! i"
    using nth_cycle_insert [OF i, of hdr 0 ?b] by simp
  have "rep (upd_list (s\<lparr>nodes := h'\<rparr>) this
          (\<lambda>L. L\<lparr>l_length := int (length ns) + 1, l_index := (if idx > 0 then idx + 1 else idx)\<rparr>))
          this hdr (?b # ns) (if i = 0 then 0 else Suc i) (if idx > 0 then idx + 1 else idx)"
    using g h' hv fresh i w by (simp add: rep_def list_simps)
  moreover have "rep (upd_list (s\<lparr>nodes := h'\<rparr>) this
          (\<lambda>L. L\<lparr>l_length := int (length ns) + 1\<rparr>))
          this hdr (?b # ns) (if i = 0 then 0 else Suc i) idx"
    using g h' hv fresh i w by (simp add: rep_def list_simps)
  ultimately show ?thesis
    using g h' by (simp add: List_prepend_def new_ListNode_def list_simps split_def rep_def)
qed

lemma List_append_rep:
  assumes r: "rep s this hdr ns i idx"
  shows "\<exists>s'. List_append this v s = Some (v, s') \<and>
           rep s' this hdr (ns @ [length (nodes s)]) i idx \<and>
           get_val (nodes s') = (get_val (nodes s))(length (nodes s) \<mapsto> v)"
proof -
  note g = rep_list [OF r]
  have i: "i \<le> length ns" and rg: "ring (get_next (nodes s)) (get_prev (nodes s)) hdr ns"
    and hv: "get_val (nodes s) hdr = Some NULL"
    using r by (simp_all add: rep_def)
  let ?b = "length (nodes s)"
  obtain h0 where h0: "new_ListNode v (nodes s) = (?b, h0)" by (simp add: new_ListNode_def)
  note e0 = new_ListNode_eff [OF h0]
  have fresh: "?b \<notin> set (hdr # ns)" using ring_fresh [OF rg] .
  have "(hdr # ns) ! length ns = last (hdr # ns)"
    using last_conv_nth [of "hdr # ns"] by simp
  then have "get_prev (nodes s) hdr = Some ((hdr # ns) ! length ns)"
    using ring_prev_pos [OF rg, of 0] by simp
  then have pv: "get_prev h0 hdr = Some ((hdr # ns) ! length ns)"
    using e0 fresh by auto
  obtain h' where h': "ListNode_insert ((hdr # ns) ! length ns) ?b (snd (new_ListNode v (nodes s))) = Some (?b, h')"
      "ring (get_next h') (get_prev h') hdr (ns @ [?b])"
      "get_val h' = (get_val (nodes s))(?b \<mapsto> v)"
    using insert_new_node [OF rg, of "length ns"] by auto
  have w: "(hdr # ns @ [?b]) ! i = (hdr # ns) ! i"
    using nth_cycle_insert [OF i, of hdr "length ns" ?b] i by simp
  have "rep (upd_list (s\<lparr>nodes := h'\<rparr>) this (\<lambda>L. L\<lparr>l_length := int (length ns) + 1\<rparr>)) this hdr
          (ns @ [?b]) i idx"
    using g h' hv fresh i w by (simp add: rep_def list_simps)
  then show ?thesis
    using g h' pv h0
    by (simp add: List_append_def ListNode_prev_def list_simps split_def)
qed

subsection \<open>Removal\<close>

lemma unlink_node:
  assumes rg: "ring (get_next h) (get_prev h) hdr ns" and j: "j < length ns"
  shows "\<exists>h'. ListNode_remove (ns ! j) h = Some (ns ! j, h') \<and>
           ring (get_next h') (get_prev h') hdr (take j ns @ drop (Suc j) ns) \<and>
           get_next h' (ns ! j) = Some (ns ! j) \<and> get_prev h' (ns ! j) = Some (ns ! j) \<and>
           get_val h' = get_val h \<and> length h' = length h"
proof -
  let ?t = "ns ! j" and ?a = "(hdr # ns) ! j" and ?c = "(ns @ [hdr]) ! Suc j"
  have p: "get_prev h ?t = Some ?a"
    using ring_prev_nth [OF rg, of j] j by (simp add: nth_append)
  have n: "get_next h ?t = Some ?c"
    using ring_next_nth [OF rg, of "Suc j"] j by simp
  have "?a \<in> set (hdr # ns)" using nth_cycle_mem [of j ns hdr] j by simp
  then have la: "live h ?a" by (rule ring_live [OF rg])
  have "?c \<in> set (hdr # ns)" using j nth_mem [of "Suc j" "ns @ [hdr]"] by auto
  then have lc: "live h ?c" by (rule ring_live [OF rg])
  obtain h' where h': "ListNode_remove ?t h = Some (?t, h')"
      "get_next h' = (get_next h)(?a \<mapsto> ?c, ?t \<mapsto> ?t)"
      "get_prev h' = (get_prev h)(?c \<mapsto> ?a, ?t \<mapsto> ?t)"
      "get_val h' = get_val h" "length h' = length h"
    using ListNode_remove_eff [OF p n la lc] by blast
  have "ring (get_next h') (get_prev h') hdr (take j ns @ drop (Suc j) ns)"
    unfolding h'(2,3) using ring_remove [OF rg j] .
  then show ?thesis using h' by simp
qed

lemma nth_cycle_remove:
  "i \<le> j \<Longrightarrow> j < length ns \<Longrightarrow> (hdr # take j ns @ drop (Suc j) ns) ! i = (hdr # ns) ! i"
  by (cases i) (auto simp: nth_append)

lemma List_remove_rep:
  assumes r: "rep s this hdr ns i idx"
  shows "if i = 0 then List_remove this s = Some (NULL, s)
         else \<exists>v s'. List_remove this s = Some (v, s') \<and>
           get_val (nodes s) ((hdr # ns) ! i) = Some v \<and>
           rep s' this hdr (take (i - 1) ns @ drop i ns) (i - 1) (idx - 1) \<and>
           get_val (nodes s') = (get_val (nodes s))((hdr # ns) ! i := None)"
proof (cases "i = 0")
  case True
  then show ?thesis using rep_list [OF r] by (simp add: List_remove_def list_simps)
next
  case False
  then obtain j where ij: "i = Suc j" by (cases i) auto
  note g = rep_list [OF r]
  have i: "i \<le> length ns" and rg: "ring (get_next (nodes s)) (get_prev (nodes s)) hdr ns"
    and hv: "get_val (nodes s) hdr = Some NULL"
    using r by (simp_all add: rep_def)
  have j: "j < length ns" using i ij by simp
  let ?t = "ns ! j"
  have t: "(hdr # ns) ! i = ?t" using ij by simp
  have ne: "?t \<noteq> hdr" using rep_win_hdr [OF r] False t by simp
  obtain v where v: "get_val (nodes s) ?t = Some v"
    using rep_val [OF r i] t by auto
  have pv: "get_prev (nodes s) ?t = Some ((hdr # ns) ! j)"
    using rep_prev [OF r] ij by (simp add: pred_pos_def)
  have nx: "get_next (nodes s) ((hdr # ns) ! j) = Some ?t"
    using ring_next_pos [OF rg, of j] j by simp
  obtain h1 where h1: "ListNode_remove ?t (nodes s) = Some (?t, h1)"
      "ring (get_next h1) (get_prev h1) hdr (take j ns @ drop (Suc j) ns)"
      "get_next h1 ?t = Some ?t"
      "get_val h1 = get_val (nodes s)" "length h1 = length (nodes s)"
    using unlink_node [OF rg j] by blast
  obtain h2 where h2: "delete_ListNode h1 ?t = Some h2"
      "get_next h2 = (get_next h1)(?t := None)" "get_prev h2 = (get_prev h1)(?t := None)"
      "get_val h2 = (get_val h1)(?t := None)"
    using delete_ListNode_eff [OF get_next_live [OF h1(3)]] by blast
  have "?t \<notin> set (hdr # take j ns @ drop (Suc j) ns)"
  proof -
    have d: "distinct (hdr # ns)" using rg by (simp add: ring_def)
    have "ns = take j ns @ ?t # drop (Suc j) ns" using j by (rule id_take_nth_drop)
    then have "distinct (take j ns @ ?t # drop (Suc j) ns)" using d by simp
    then show ?thesis using ne by auto
  qed
  from ring_upd_other [OF this, of "get_next h1" None "get_prev h1" None]
  have rg2: "ring (get_next h2) (get_prev h2) hdr (take j ns @ drop (Suc j) ns)"
    unfolding h2(2,3) using h1(2) by simp
  have w: "(hdr # take j ns @ drop (Suc j) ns) ! j = (hdr # ns) ! j"
    using nth_cycle_remove [of j j ns hdr] j by simp
  have len: "int (length (take j ns @ drop (Suc j) ns)) = int (length ns) - 1"
    using j by auto
  show ?thesis
    using False g v pv nx h1 h2 ne ij rg2 w len hv j
    by (simp add: List_remove_def ListNode_prev_def ListNode_next_def list_simps rep_def)
qed

subsection \<open>Appending a list\<close>

lemma List_append_list_rep:
  assumes ra: "rep s A ha as i idx" and rb: "rep s B hb bs j jdx"
    and ne: "A \<noteq> B" and disj: "set (ha # as) \<inter> set (hb # bs) = {}"
  shows "\<exists>s'. List_append_list A B s = Some (A, s') \<and>
           rep s' A ha (as @ bs) i idx \<and> rep s' B hb [] 0 jdx \<and>
           get_val (nodes s') = get_val (nodes s)"
proof -
  note ga = rep_list [OF ra] and gb = rep_list [OF rb]
  let ?h = "nodes s"
  have i: "i \<le> length as"
    and rga: "ring (get_next ?h) (get_prev ?h) ha as"
    and rgb: "ring (get_next ?h) (get_prev ?h) hb bs"
    and hva: "get_val ?h ha = Some NULL" and hvb: "get_val ?h hb = Some NULL"
    using ra rb by (simp_all add: rep_def)
  let ?a = "last (ha # as)" and ?bn = "hd (bs @ [hb])"
  have la: "(ha # as) ! length as = ?a"
    using last_conv_nth [of "ha # as"] by simp
  have pv: "get_prev ?h ha = Some ?a"
    using ring_prev_pos [OF rga, of 0] by simp
  have an: "get_next ?h ?a = Some ha"
    using ring_next_pos [OF rga, of "length as"] la by simp
  have bn: "get_next ?h hb = Some ?bn"
    using ring_next_nth [OF rgb, of 0] by (cases bs) auto
  have "?bn \<in> set (hb # bs)" by (cases bs) auto
  then have lbn: "live ?h ?bn" by (rule ring_live [OF rgb])
  have lan: "live ?h ha" by (rule ring_live [OF rga]) simp
  obtain h1 where h1: "ListNode_splice ?a hb ?h = Some h1"
      "get_next h1 = (get_next ?h)(?a \<mapsto> ?bn, hb \<mapsto> ha)"
      "get_prev h1 = (get_prev ?h)(ha \<mapsto> hb, ?bn \<mapsto> ?a)"
      "get_val h1 = get_val ?h"
    using ListNode_splice_eff [OF an bn lan lbn] by blast
  have rg1: "ring (get_next h1) (get_prev h1) ha (as @ bs @ [hb])"
    unfolding h1(2,3) using ring_splice [OF rga rgb disj] .
  have t: "(as @ bs @ [hb]) ! length (as @ bs) = hb"
    using nth_append_length [of "as @ bs" hb "[]"] by simp
  obtain h2 where h2: "ListNode_remove hb h1 = Some (hb, h2)"
      "ring (get_next h2) (get_prev h2) ha (as @ bs)"
      "get_next h2 hb = Some hb" "get_prev h2 hb = Some hb"
      "get_val h2 = get_val h1"
    using unlink_node [OF rg1, of "length (as @ bs)"] unfolding t by auto
  have rgb2: "ring (get_next h2) (get_prev h2) hb []"
    using h2(3,4) by (simp add: ring_empty)
  have w: "(ha # as @ bs) ! i = (ha # as) ! i"
    using i nth_append [of "ha # as" bs i] by simp
  show ?thesis
    using ga gb ne pv h1 h2 rgb2 w hva hvb i
    by (simp add: List_append_list_def ListNode_prev_def list_simps rep_def)
qed

section \<open>What a well-formed list holds\<close>

lemma walk_links: "links nx pv p xs \<Longrightarrow> walk nx p (length xs) = xs"
  by (induction xs arbitrary: p) auto

lemma ring_walk: "ring nx pv hdr ns \<Longrightarrow> walk nx hdr (length ns) = ns"
  by (rule walk_links [of nx pv]) (simp add: ring_def links_append)

lemma rep_ring_nodes: "rep s this hdr ns i idx \<Longrightarrow> ring_nodes s this = ns"
  using ring_walk [of "get_next (nodes s)" "get_prev (nodes s)" hdr ns]
  by (simp add: rep_def ring_nodes_def)

lemma rep_elements: "rep s this hdr ns i idx \<Longrightarrow> elements s this = map (value_at (nodes s)) ns"
  by (simp add: elements_def rep_ring_nodes)

lemma rep_cycle: "rep s this hdr ns i idx \<Longrightarrow> cycle s this = hdr # ns"
  by (simp add: cycle_def rep_ring_nodes rep_list)

lemma rep_length: "rep s this hdr ns i idx \<Longrightarrow> get_length s this = Some (int (length ns))"
  by (simp add: rep_list get_length_def)

lemma rep_index: "rep s this hdr ns i idx \<Longrightarrow> get_index s this = Some idx"
  by (simp add: rep_list get_index_def)

lemma rep_header: "rep s this hdr ns i idx \<Longrightarrow> get_header s this = Some hdr"
  by (simp add: rep_list get_header_def)

lemma rep_win: "rep s this hdr ns i idx \<Longrightarrow> get_win s this = Some ((hdr # ns) ! i)"
  by (simp add: rep_list get_win_def)

lemma rep_invariant: "rep s this hdr ns i (int i) \<Longrightarrow> invariant s this"
  using rep_win_hdr [of s this hdr ns i "int i"]
  by (simp add: invariant_def rep_list) (simp add: rep_def)

lemma ring_well_linked:
  assumes rg: "ring (get_next h) (get_prev h) hdr ns" and n: "n \<in> set (hdr # ns)"
  shows "well_linked h n"
proof -
  from n obtain k where k: "k \<le> length ns" "n = (hdr # ns) ! k"
    by (metis in_set_conv_nth length_Cons less_Suc_eq_le)
  let ?n = "length ns"
  have la: "last (hdr # ns) = (hdr # ns) ! ?n"
    using last_conv_nth [of "hdr # ns"] by simp
  have kp: "pred_pos ?n k \<le> ?n" and ks: "succ_pos ?n k \<le> ?n"
    using k(1) by (simp_all add: pred_pos_le succ_pos_le)
  have e: "succ_pos ?n (pred_pos ?n k) = k" "pred_pos ?n (succ_pos ?n k) = k"
    using k(1) by (auto simp: succ_pos_def pred_pos_def)
  have nx: "\<And>j. j \<le> ?n \<Longrightarrow> get_next h ((hdr # ns) ! j) = Some ((hdr # ns) ! succ_pos ?n j)"
    using ring_next_pos [OF rg] by (auto simp: succ_pos_def)
  have pv: "\<And>j. j \<le> ?n \<Longrightarrow> get_prev h ((hdr # ns) ! j) = Some ((hdr # ns) ! pred_pos ?n j)"
    using ring_prev_pos [OF rg] la by (auto simp: pred_pos_def)
  show ?thesis
    unfolding well_linked_def k(2)
    using nx [OF k(1)] pv [OF k(1)] nx [OF kp] pv [OF ks] e by simp
qed

lemma rep_well_linked:
  "rep s this hdr ns i idx \<Longrightarrow> n \<in> set (cycle s this) \<Longrightarrow> well_linked (nodes s) n"
  using ring_well_linked [of "nodes s" hdr ns n] by (simp add: rep_cycle) (simp add: rep_def)

lemma map_value_at_other:
  "get_val h' = (get_val h)(b := x) \<Longrightarrow> b \<notin> set xs \<Longrightarrow> map (value_at h') xs = map (value_at h) xs"
  by (induction xs) (auto simp: value_at_def)

lemma map_value_at_same:
  "get_val h' = get_val h \<Longrightarrow> map (value_at h') xs = map (value_at h) xs"
  by (simp add: value_at_def [abs_def])

lemma rep_value:
  "rep s this hdr ns i idx \<Longrightarrow> j < length ns \<Longrightarrow> get_val (nodes s) (ns ! j) = Some v \<Longrightarrow>
     elements s this ! j = v"
  by (simp add: rep_elements value_at_def)

text \<open>The constructor builds a well-formed, empty list that keeps the invariant.\<close>

lemma List_new_rep:
  assumes "List_new s = (l, s')"
  shows "l = length (lists s) \<and> rep s' l (length (nodes s)) [] 0 0 \<and> invariant s' l"
proof -
  have s': "s' = s\<lparr>nodes := nodes s @ [Some \<lparr>n_val = NULL, n_next = length (nodes s),
                                                n_prev = length (nodes s)\<rparr>],
                   lists := lists s @ [\<lparr>header = length (nodes s), win = length (nodes s),
                                       l_index = 0, l_length = 0\<rparr>]\<rparr>"
    and l: "l = length (lists s)"
    using assms by (auto simp: List_new_def new_ListNode_def)
  have "rep s' l (length (nodes s)) [] 0 0"
    unfolding s' l
    by (simp add: rep_def get_list_def ring_def get_next_def get_prev_def get_val_def node_at_def)
  then show ?thesis using l rep_invariant [of s' l "length (nodes s)" "[]" 0] by simp
qed

section \<open>Sequences of operations\<close>

lemma remove_elements:
  assumes r: "rep s this hdr ns i idx" and j: "j < length ns"
    and r': "rep s' this hdr (take j ns @ drop (Suc j) ns) i' idx'"
    and v: "get_val (nodes s') = (get_val (nodes s))(ns ! j := None)"
  shows "elements s' this = take j (elements s this) @ drop (Suc j) (elements s this)"
proof -
  have d: "distinct ns" using r by (simp add: rep_def ring_def)
  have "ns = take j ns @ ns ! j # drop (Suc j) ns" using j by (rule id_take_nth_drop)
  then have "distinct (take j ns @ ns ! j # drop (Suc j) ns)" using d by simp
  then have "ns ! j \<notin> set (take j ns @ drop (Suc j) ns)" by auto
  from map_value_at_other [OF v this]
  show ?thesis
    by (simp add: rep_elements [OF r] rep_elements [OF r'] take_map drop_map)
qed

lemma List_next_inside:
  assumes r: "rep s this hdr ns i (int i)" and i: "i < length ns"
  shows "\<exists>v s'. List_next this s = Some (v, s') \<and>
           get_val (nodes s) ((hdr # ns) ! Suc i) = Some v \<and>
           rep s' this hdr ns (Suc i) (int (Suc i)) \<and> nodes s' = nodes s"
proof -
  have e: "succ_pos (length ns) i = Suc i"
    "(if int i + 1 > int (length ns) then 0 else int i + 1) = int (Suc i)"
    using i by (simp_all add: succ_pos_def)
  show ?thesis using List_next_rep [OF r] unfolding e .
qed

lemma List_next_wraps:
  assumes r: "rep s this hdr ns (length ns) (int (length ns))"
  shows "\<exists>s'. List_next this s = Some (NULL, s') \<and> rep s' this hdr ns 0 0 \<and> nodes s' = nodes s"
proof -
  have e: "succ_pos (length ns) (length ns) = 0"
    "(if int (length ns) + 1 > int (length ns) then 0 else int (length ns) + 1) = 0"
    by (simp_all add: succ_pos_def)
  have hv: "get_val (nodes s) hdr = Some NULL" using r by (simp add: rep_def)
  show ?thesis using List_next_rep [OF r] hv unfolding e by auto
qed

lemma List_first_nonempty:
  assumes r: "rep s this hdr ns i idx" and n: "ns \<noteq> []"
  shows "\<exists>v s'. List_first this s = Some (v, s') \<and>
           get_val (nodes s) ((hdr # ns) ! Suc 0) = Some v \<and>
           rep s' this hdr ns (Suc 0) (int (Suc 0)) \<and> nodes s' = nodes s"
proof -
  have e: "succ_pos (length ns) 0 = Suc 0" "(1::int) = int (Suc 0)"
    using n by (simp_all add: succ_pos_def)
  show ?thesis using List_first_rep [OF r] unfolding e(1) by simp
qed

lemma next_times_rep:
  assumes "rep s this hdr ns i (int i)" and "i + k \<le> length ns"
    and "get_val (nodes s) ((hdr # ns) ! i) = Some v"
  shows "\<exists>v' s'. next_times k this (v, s) = Some (v', s') \<and>
           get_val (nodes s) ((hdr # ns) ! (i + k)) = Some v' \<and>
           rep s' this hdr ns (i + k) (int (i + k)) \<and> nodes s' = nodes s"
  using assms
proof (induction k arbitrary: i v s)
  case 0
  then show ?case by simp
next
  case (Suc k)
  have i: "i < length ns" using Suc.prems(2) by simp
  from List_next_inside [OF Suc.prems(1) i] obtain v1 s1 where
    n: "List_next this s = Some (v1, s1)" "get_val (nodes s) ((hdr # ns) ! Suc i) = Some v1"
      "rep s1 this hdr ns (Suc i) (int (Suc i))" "nodes s1 = nodes s"
    by blast
  have le: "Suc i + k \<le> length ns" using Suc.prems(2) by simp
  have v1: "get_val (nodes s1) ((hdr # ns) ! Suc i) = Some v1" using n(2,4) by simp
  from Suc.IH [OF n(3) le v1]
  obtain v' s' where t: "next_times k this (v1, s1) = Some (v', s')"
      "get_val (nodes s1) ((hdr # ns) ! (Suc i + k)) = Some v'"
      "rep s' this hdr ns (Suc i + k) (int (Suc i + k))" "nodes s' = nodes s1"
    by blast
  have "i + Suc k = Suc i + k" by simp
  then show ?case using n t by (simp del: nth_Cons_Suc of_nat_Suc of_nat_add)
qed

lemma first_then_next_rep:
  assumes r: "rep s this hdr ns i idx" and k: "k < length ns"
  shows "\<exists>s'. first_then_next this k s = Some (elements s this ! k, s') \<and>
           rep s' this hdr ns (Suc k) (int (Suc k)) \<and> nodes s' = nodes s"
proof -
  have n: "ns \<noteq> []" using k by auto
  from List_first_nonempty [OF r n] obtain v1 s1 where
    f: "List_first this s = Some (v1, s1)" "get_val (nodes s) ((hdr # ns) ! Suc 0) = Some v1"
      "rep s1 this hdr ns (Suc 0) (int (Suc 0))" "nodes s1 = nodes s"
    by blast
  have le: "Suc 0 + k \<le> length ns" using k by simp
  have v1: "get_val (nodes s1) ((hdr # ns) ! Suc 0) = Some v1" using f(2,4) by simp
  from next_times_rep [OF f(3) le v1]
  obtain v' s' where t: "next_times k this (v1, s1) = Some (v', s')"
      "get_val (nodes s1) ((hdr # ns) ! (Suc 0 + k)) = Some v'"
      "rep s' this hdr ns (Suc 0 + k) (int (Suc 0 + k))" "nodes s' = nodes s1"
    by blast
  have "get_val (nodes s) (ns ! k) = Some v'" using t(2) f(4) by simp
  then have "elements s this ! k = v'" by (rule rep_value [OF r k])
  moreover have "Suc 0 + k = Suc k" by simp
  ultimately show ?thesis
    using f(1,4) t(1,3,4) by (simp add: first_then_next_def del: of_nat_Suc of_nat_add)
qed

lemma next_times_Suc_right:
  "next_times (Suc k) this r = Option.bind (next_times k this r) (\<lambda>r'. List_next this (snd r'))"
proof (induction k arbitrary: r)
  case 0
  show ?case by (cases "List_next this (snd r)") simp_all
next
  case (Suc k)
  show ?case
  proof (cases "List_next this (snd r)")
    case None
    then show ?thesis by simp
  next
    case (Some r1)
    have "next_times (Suc (Suc k)) this r = next_times (Suc k) this r1"
      using Some by simp
    also have "\<dots> = Option.bind (next_times k this r1) (\<lambda>r'. List_next this (snd r'))"
      by (rule Suc.IH)
    also have "\<dots> = Option.bind (next_times (Suc k) this r) (\<lambda>r'. List_next this (snd r'))"
      using Some by simp
    finally show ?thesis .
  qed
qed

lemma first_then_next_Suc:
  "first_then_next this (Suc k) s =
     Option.bind (first_then_next this k s) (\<lambda>r'. List_next this (snd r'))"
  unfolding first_then_next_def next_times_Suc_right by simp

lemma first_then_next_wraps:
  assumes r: "rep s this hdr ns i idx" and n: "ns \<noteq> []"
  shows "\<exists>s'. first_then_next this (length ns) s = Some (NULL, s') \<and>
           rep s' this hdr ns 0 0 \<and> nodes s' = nodes s"
proof -
  obtain m where m: "length ns = Suc m" using n by (cases ns) auto
  then have "m < length ns" by simp
  from first_then_next_rep [OF r this] obtain s1 where
    f: "first_then_next this m s = Some (elements s this ! m, s1)"
      "rep s1 this hdr ns (Suc m) (int (Suc m))" "nodes s1 = nodes s"
    by blast
  from List_next_wraps [of s1 this hdr ns] f(2) obtain s' where
    x: "List_next this s1 = Some (NULL, s')" "rep s' this hdr ns 0 0" "nodes s' = nodes s1"
    unfolding m by blast
  show ?thesis
    unfolding m first_then_next_Suc using f(1,3) x by simp
qed

lemma one_elem_built:
  "List_append 0 (Obj (gInt 7)) fresh_list = Some (Obj (gInt 7), one_elem)"
  by code_simp

lemma null_elem_built: "List_append 0 NULL fresh_list = Some (NULL, null_elem)"
  by code_simp

lemma three_elems_built:
  "Option.bind (List_append 0 (Obj (gInt 1)) fresh_list) (\<lambda>r.
   Option.bind (List_append 0 (Obj (gInt 2)) (snd r)) (\<lambda>r.
   List_append 0 (Obj (gInt 3)) (snd r))) = Some (Obj (gInt 3), three_elems)"
  by code_simp

lemma three_elems_at_2_built: "List_GetAt 0 2 three_elems = Some (Obj (gInt 2), three_elems_at_2)"
  by code_simp

lemma GetAt_pos_consistent:
  assumes "i \<le> n" and "1 \<le> pt" and "pt \<le> int n"
  shows "GetAt_pos n i (int i) pt = nat pt"
proof (cases "pt < int i")
  case True
  then have "nat (int i - pt) \<le> i" using assms by simp
  from pred_pos_funpow [OF this, of n] True assms show ?thesis
    by (simp add: GetAt_pos_def)
next
  case False
  then have "i + nat (pt - int i) \<le> n" using assms by simp
  from succ_pos_funpow [OF this] False assms show ?thesis
    by (simp add: GetAt_pos_def)
qed

lemma insert_elements:
  assumes r: "rep s this hdr ns i idx"
    and r': "rep s' this hdr (take j ns @ length (nodes s) # drop j ns) i' idx'"
    and v: "get_val (nodes s') = (get_val (nodes s))(length (nodes s) \<mapsto> v)"
  shows "elements s' this = take j (elements s this) @ v # drop j (elements s this)"
proof -
  have rg: "ring (get_next (nodes s)) (get_prev (nodes s)) hdr ns" using r by (simp add: rep_def)
  have "length (nodes s) \<notin> set ns" using ring_fresh [OF rg] by simp
  then have "length (nodes s) \<notin> set (take j ns)" "length (nodes s) \<notin> set (drop j ns)"
    by (auto dest: in_set_takeD in_set_dropD)
  from map_value_at_other [OF v this(1)] map_value_at_other [OF v this(2)]
  show ?thesis
    by (simp add: rep_elements [OF r] rep_elements [OF r'] take_map drop_map value_at_def v)
qed

lemma Stack_push_rep:
  assumes r: "rep s st hdr ns i idx"
  shows "\<exists>s' i' idx'. Stack_push st v s = Some s' \<and>
           rep s' st hdr (length (nodes s) # ns) i' idx' \<and>
           elements s' st = v # elements s st"
proof -
  from List_prepend_rep [OF r, of v] obtain s' where
    p: "List_prepend st v s = Some (v, s')"
      "rep s' st hdr (length (nodes s) # ns) (if i = 0 then 0 else Suc i)
         (if idx > 0 then idx + 1 else idx)"
      "get_val (nodes s') = (get_val (nodes s))(length (nodes s) \<mapsto> v)"
    by blast
  have "rep s' st hdr (take 0 ns @ length (nodes s) # drop 0 ns) (if i = 0 then 0 else Suc i)
         (if idx > 0 then idx + 1 else idx)"
    using p(2) by simp
  from insert_elements [OF r this p(3)] have "elements s' st = v # elements s st" by simp
  then show ?thesis using p by (auto simp: Stack_push_def)
qed

lemma pushes_rep:
  "rep s st hdr ns i idx \<Longrightarrow>
     \<exists>s' ns' i' idx'. pushes st vs s = Some s' \<and> rep s' st hdr ns' i' idx' \<and>
       elements s' st = rev vs @ elements s st"
proof (induction vs arbitrary: s ns i idx)
  case Nil
  then show ?case by auto
next
  case (Cons v vs)
  from Stack_push_rep [OF Cons.prems, of v] obtain s1 i1 idx1 where
    p: "Stack_push st v s = Some s1" "rep s1 st hdr (length (nodes s) # ns) i1 idx1"
      "elements s1 st = v # elements s st"
    by blast
  from Cons.IH [OF p(2)] obtain s' ns' i' idx' where
    "pushes st vs s1 = Some s'" "rep s' st hdr ns' i' idx'"
    "elements s' st = rev vs @ elements s1 st"
    by blast
  then show ?case using p by auto
qed

lemma Stack_pop_rep:
  assumes r: "rep s st hdr (a # ns) i idx"
  shows "\<exists>s'. Stack_pop st s = Some (hd (elements s st), s') \<and> rep s' st hdr ns 0 0 \<and>
           elements s' st = tl (elements s st)"
proof -
  from List_first_nonempty [OF r] obtain v1 s1 where
    f: "List_first st s = Some (v1, s1)" "rep s1 st hdr (a # ns) (Suc 0) (int (Suc 0))"
      "nodes s1 = nodes s"
    by blast
  from List_remove_rep [OF f(2)] obtain v s' where
    rm: "List_remove st s1 = Some (v, s')" "get_val (nodes s1) a = Some v"
      "rep s' st hdr ns 0 0" "get_val (nodes s') = (get_val (nodes s1))(a := None)"
    by auto
  have "rep s' st hdr (take 0 (a # ns) @ drop (Suc 0) (a # ns)) 0 0" using rm(3) by simp
  from remove_elements [OF f(2) _ this] rm(4)
  have e: "elements s' st = tl (elements s1 st)" by (simp add: drop_Suc)
  have e1: "elements s1 st = elements s st"
    using rep_elements [OF r] rep_elements [OF f(2)] f(3) by simp
  have "hd (elements s st) = v"
    using rep_elements [OF r] rm(2) f(3) by (simp add: value_at_def)
  then show ?thesis using f(1) rm(1,3) e e1 by (simp add: Stack_pop_def)
qed

lemma Stack_pop_empty:
  assumes r: "rep s st hdr [] i idx"
  shows "\<exists>s'. Stack_pop st s = Some (NULL, s') \<and> rep s' st hdr [] 0 1"
proof -
  from List_first_rep [OF r] obtain v1 s1 where
    f: "List_first st s = Some (v1, s1)" "rep s1 st hdr [] 0 1"
    by (auto simp: succ_pos_def)
  from List_remove_rep [OF f(2)] have "List_remove st s1 = Some (NULL, s1)" by simp
  then show ?thesis using f by (simp add: Stack_pop_def)
qed

lemma pops_rep:
  "rep s st hdr ns i idx \<Longrightarrow> n \<le> length ns \<Longrightarrow>
     \<exists>s' i' idx'. pops n st s = Some (take n (elements s st), s') \<and>
       rep s' st hdr (drop n ns) i' idx' \<and> elements s' st = drop n (elements s st)"
proof (induction n arbitrary: s ns i idx)
  case 0
  then show ?case by auto
next
  case (Suc n)
  then obtain a ns' where ns: "ns = a # ns'" by (cases ns) auto
  from Stack_pop_rep [of s st hdr a ns' i idx] Suc.prems(1) ns obtain s1 where
    p: "Stack_pop st s = Some (hd (elements s st), s1)" "rep s1 st hdr ns' 0 0"
      "elements s1 st = tl (elements s st)"
    by blast
  have "n \<le> length ns'" using Suc.prems(2) ns by simp
  from Suc.IH [OF p(2) this] obtain s' i' idx' where
    q: "pops n st s1 = Some (take n (elements s1 st), s')" "rep s' st hdr (drop n ns') i' idx'"
      "elements s' st = drop n (elements s1 st)"
    by blast
  have "elements s st \<noteq> []"
    using rep_elements [OF Suc.prems(1)] ns by simp
  then have "take (Suc n) (elements s st) = hd (elements s st) # take n (tl (elements s st))"
    by (cases "elements s st") auto
  then show ?case using p q ns by (auto simp: drop_Suc)
qed

lemma list2vector_loop_rep:
  assumes "rep s list hdr ns (nat i) i" and "1 \<le> i" and "i \<le> int (length ns)"
    and "length out = length ns" and "NULL \<notin> set (elements s list)"
  shows "\<exists>out' s'. list2vector_loop list i (int (length ns)) out s = Some (out', s') \<and>
           rep s' list hdr ns 0 0 \<and> nodes s' = nodes s \<and> length out' = length ns \<and>
           (\<forall>k < length ns. out' ! k =
              (if i \<le> int k + 1 then unbox (elements s list ! k) else out ! k))"
  using assms
proof (induction "nat (int (length ns) - i)" arbitrary: i out s)
  case 0
  then have i: "i = int (length ns)" by simp
  note r = "0.prems"(1)
  have ipos: "nat i = length ns" "nat i - 1 < length ns" using i "0.prems"(2) by auto
  obtain v where v: "List_val list s = Some (v, s)" "get_val (nodes s) ((hdr # ns) ! nat i) = Some v"
    using List_val_rep [OF r] by blast
  have e: "(hdr # ns) ! nat i = ns ! (nat i - 1)" using "0.prems"(2) by (cases "nat i") auto
  have ev: "elements s list ! (nat i - 1) = v"
    using rep_value [OF r ipos(2), of v] v(2) e by simp
  then have "v \<noteq> NULL" using "0.prems"(5) ipos(2) rep_elements [OF r]
    by (metis length_map nth_mem)
  then obtain g where g: "v = Obj g" by (cases v) auto
  let ?out = "out[nat (i - 1) := Some (data g)]"
  have set: "ivector_set out i (data g) = Some ?out"
    using "0.prems"(2,3,4) by (simp add: ivector_set_def)
  from List_next_wraps [of s list hdr ns] r obtain s1 where
    n: "List_next list s = Some (NULL, s1)" "rep s1 list hdr ns 0 0" "nodes s1 = nodes s"
    unfolding i by auto
  have fin: "list2vector_loop list (i + 1) (int (length ns)) ?out s1 = Some (?out, s1)"
    using i by (simp add: list2vector_loop.simps [of list "i + 1"])
  have run: "list2vector_loop list i (int (length ns)) out s = Some (?out, s1)"
    using "0.prems"(3) v(1) g set n(1) fin
    by (simp add: list2vector_loop.simps [of list i])
  have "\<forall>k < length ns. ?out ! k =
          (if i \<le> int k + 1 then unbox (elements s list ! k) else out ! k)"
  proof (intro allI impI)
    fix k assume k: "k < length ns"
    show "?out ! k = (if i \<le> int k + 1 then unbox (elements s list ! k) else out ! k)"
    proof (cases "k = nat (i - 1)")
      case True
      then have "k = nat i - 1" by (simp add: nat_diff_distrib')
      then show ?thesis using True k "0.prems"(2,4) ev g by (simp add: unbox_def)
    next
      case False
      then have "\<not> i \<le> int k + 1" using k i by auto
      then show ?thesis using False by simp
    qed
  qed
  then show ?case using run n "0.prems"(4) by simp
next
  case (Suc m)
  then have i: "i < int (length ns)" by simp
  note r = Suc.prems(1)
  have ipos: "nat i < length ns" "nat i - 1 < length ns" using i Suc.prems(2) by auto
  obtain v where v: "List_val list s = Some (v, s)" "get_val (nodes s) ((hdr # ns) ! nat i) = Some v"
    using List_val_rep [OF r] by blast
  have e: "(hdr # ns) ! nat i = ns ! (nat i - 1)" using Suc.prems(2) by (cases "nat i") auto
  have ev: "elements s list ! (nat i - 1) = v"
    using rep_value [OF r ipos(2), of v] v(2) e by simp
  then have "v \<noteq> NULL" using Suc.prems(5) ipos(2) rep_elements [OF r]
    by (metis length_map nth_mem)
  then obtain g where g: "v = Obj g" by (cases v) auto
  let ?out = "out[nat (i - 1) := Some (data g)]"
  have set: "ivector_set out i (data g) = Some ?out"
    using Suc.prems(2,3,4) by (simp add: ivector_set_def)
  have ii: "int (nat i) = i" using Suc.prems(2) by simp
  from List_next_inside [of s list hdr ns "nat i"] r ipos(1) obtain v1 s1 where
    n: "List_next list s = Some (v1, s1)" "rep s1 list hdr ns (Suc (nat i)) (int (Suc (nat i)))"
      "nodes s1 = nodes s"
    unfolding ii by blast
  have r1: "rep s1 list hdr ns (nat (i + 1)) (i + 1)"
    using n(2) Suc.prems(2) by (simp add: nat_add_distrib add.commute)
  have el1: "elements s1 list = elements s list"
    using rep_elements [OF r] rep_elements [OF n(2)] n(3) by simp
  have m: "m = nat (int (length ns) - (i + 1))" using Suc.hyps(2) by simp
  from Suc.hyps(1) [OF m r1, of ?out] i Suc.prems(2,4,5) el1
  obtain out' s' where
    l: "list2vector_loop list (i + 1) (int (length ns)) ?out s1 = Some (out', s')"
      "rep s' list hdr ns 0 0" "nodes s' = nodes s1" "length out' = length ns"
      "\<forall>k < length ns. out' ! k =
          (if i + 1 \<le> int k + 1 then unbox (elements s list ! k) else ?out ! k)"
    by auto
  have run: "list2vector_loop list i (int (length ns)) out s = Some (out', s')"
    using Suc.prems(3) v(1) g set n(1) l(1)
    by (simp add: list2vector_loop.simps [of list i])
  have "\<forall>k < length ns. out' ! k =
          (if i \<le> int k + 1 then unbox (elements s list ! k) else out ! k)"
  proof (intro allI impI)
    fix k assume k: "k < length ns"
    show "out' ! k = (if i \<le> int k + 1 then unbox (elements s list ! k) else out ! k)"
    proof (cases "k = nat (i - 1)")
      case True
      then have kk: "k = nat i - 1" by (simp add: nat_diff_distrib')
      have "\<not> i + 1 \<le> int k + 1" "i \<le> int k + 1" using True Suc.prems(2) by auto
      then show ?thesis using l(5) k True kk Suc.prems(4) ev g by (simp add: unbox_def)
    next
      case False
      then have "(i + 1 \<le> int k + 1) = (i \<le> int k + 1)" using Suc.prems(2) by auto
      then show ?thesis using l(5) k False by simp
    qed
  qed
  then show ?case using run l n(3) by simp
qed

lemma two_lists_built:
  "Option.bind (List_append (fst (List_new three_elems)) (Obj (gInt 4)) (snd (List_new three_elems))) (\<lambda>r.
   Option.bind (List_append 1 (Obj (gInt 5)) (snd r)) (\<lambda>r.
   List_first 1 (snd r))) = Some (Obj (gInt 4), two_lists)"
  by code_simp

text \<open>
  What \<^verbatim>\<open>append(List*)\<close> does for two different well-formed lists with separate
  rings: the receiver holds its elements followed by those of the argument and keeps
  its cursor; the argument is empty, its header a ring of its own, its window on the
  header; its index field is what it was (\<open>jdx\<close>).
\<close>

lemma append_list_elements:
  assumes ra: "rep s A ha as i idx" and rb: "rep s B hb bs j jdx"
    and ne: "A \<noteq> B" and disj: "set (ha # as) \<inter> set (hb # bs) = {}"
  shows "\<exists>s'. List_append_list A B s = Some (A, s') \<and>
           rep s' A ha (as @ bs) i idx \<and> rep s' B hb [] 0 jdx \<and>
           elements s' A = elements s A @ elements s B \<and> elements s' B = [] \<and>
           get_length s' A = Some (int (length as) + int (length bs)) \<and>
           get_length s' B = Some 0 \<and> get_win s' B = get_header s' B"
proof -
  from List_append_list_rep [OF ra rb ne disj] obtain s' where
    a: "List_append_list A B s = Some (A, s')" "rep s' A ha (as @ bs) i idx"
      "rep s' B hb [] 0 jdx" "get_val (nodes s') = get_val (nodes s)"
    by blast
  have "elements s' A = elements s A @ elements s B"
    using rep_elements [OF a(2)] rep_elements [OF ra] rep_elements [OF rb]
      map_value_at_same [OF a(4)] by simp
  then show ?thesis
    using a rep_elements [OF a(3)] rep_length [OF a(2)] rep_length [OF a(3)]
      rep_win [OF a(3)] rep_header [OF a(3)]
    by simp
qed

lemma run_op_rep:
  assumes r: "rep s this hdr ns i idx"
  shows "\<exists>v s' ns' i' idx'. run_op op this s = Some (v, s') \<and> rep s' this hdr ns' i' idx'"
proof (cases op)
  case (Insert v)
  then show ?thesis using List_insert_rep [OF r, of v] by (simp; blast)
next
  case (Prepend v)
  then show ?thesis using List_prepend_rep [OF r, of v] by (simp; blast)
next
  case (Append v)
  then show ?thesis using List_append_rep [OF r, of v] by (simp; blast)
next
  case Remove
  then show ?thesis using List_remove_rep [OF r] r by (cases "i = 0"; simp; blast)
next
  case (SetVal v)
  then show ?thesis using List_val_set_rep [OF r, of v] r by (cases "i = 0"; simp; blast)
next
  case Val
  then show ?thesis using List_val_rep [OF r] r by (simp; blast)
next
  case (GetAt pt)
  then show ?thesis using List_GetAt_rep [OF r, of pt] r
    by (cases "pt < 1 \<or> pt > int (length ns)"; simp; blast)
next
  case Next
  then show ?thesis using List_next_rep [OF r] by (simp; blast)
next
  case Prev
  then show ?thesis using List_prev_rep [OF r] by (simp; blast)
next
  case First
  then show ?thesis using List_first_rep [OF r] by (simp; blast)
next
  case Last
  then show ?thesis using List_last_rep [OF r] by (simp; blast)
qed

lemma run_ops_rep:
  "rep s this hdr ns i idx \<Longrightarrow>
     \<exists>s' ns' i' idx'. run_ops ops this s = Some s' \<and> rep s' this hdr ns' i' idx'"
proof (induction ops arbitrary: s ns i idx)
  case Nil
  then show ?case by auto
next
  case (Cons op ops)
  from run_op_rep [OF Cons.prems, of op] obtain v s1 ns1 i1 idx1 where
    1: "run_op op this s = Some (v, s1)" "rep s1 this hdr ns1 i1 idx1"
    by blast
  from Cons.IH [OF 1(2)] show ?case using 1(1) by simp
qed

text \<open>
  \<^verbatim>\<open>append(List*)\<close> of a list to itself: the header ends up a ring of its own, the
  list is empty, and the elements it held are left as a ring without a header.
\<close>

lemma ring_splice_self:
  assumes r: "ring nx pv ha (x # xs)"
  shows "ring (nx(last (x # xs) \<mapsto> x, ha \<mapsto> ha)) (pv(ha \<mapsto> ha, x \<mapsto> last (x # xs))) x xs \<and>
         ring (nx(last (x # xs) \<mapsto> x, ha \<mapsto> ha)) (pv(ha \<mapsto> ha, x \<mapsto> last (x # xs))) ha []"
proof -
  let ?a = "last (x # xs)"
  let ?nx = "nx(?a \<mapsto> x, ha \<mapsto> ha)" and ?pv = "pv(ha \<mapsto> ha, x \<mapsto> ?a)"
  have d: "distinct (ha # x # xs)" and l: "links nx pv ha ((x # xs) @ [ha])"
    using r by (simp_all add: ring_def)
  have lx: "links nx pv x xs" using l by (simp add: links_append)
  have ain: "?a \<in> set (x # xs)" by (rule last_in_set) simp
  have a_ha: "?a \<noteq> ha" using ain d by auto
  have a_bl: "?a \<notin> set (butlast (x # xs))"
  proof -
    have "distinct (butlast (x # xs) @ [?a])" using d by (simp del: butlast.simps last.simps)
    then show ?thesis by simp
  qed
  have "ha \<notin> set (butlast (x # xs))" using d by (auto dest: in_set_butlastD)
  moreover have "ha \<notin> set xs" "x \<notin> set xs" using d by auto
  ultimately have 1: "links ?nx ?pv x xs"
    using lx a_bl by (simp add: links_next_upd links_prev_upd del: butlast.simps last.simps)
  have 2: "links ?nx ?pv ?a [x]" using a_ha d by auto
  have "links ?nx ?pv x (xs @ [x])" by (rule links_chain [OF 1 refl 2])
  moreover have "distinct (x # xs)" using d by simp
  moreover have "x \<noteq> ha" using d by auto
  ultimately show ?thesis by (simp add: ring_def)
qed

lemma List_append_list_self_rep:
  assumes r: "rep s A ha as i idx"
  shows "\<exists>s'. List_append_list A A s = Some (A, s') \<and> rep s' A ha [] 0 idx \<and>
           (\<forall>n \<in> set (ha # as). well_linked (nodes s') n) \<and>
           get_val (nodes s') = get_val (nodes s)"
proof -
  note g = rep_list [OF r]
  let ?h = "nodes s"
  have rg: "ring (get_next ?h) (get_prev ?h) ha as"
    and hv: "get_val ?h ha = Some NULL"
    using r by (simp_all add: rep_def)
  let ?a = "last (ha # as)" and ?bn = "hd (as @ [ha])"
  have la: "(ha # as) ! length as = ?a"
    using last_conv_nth [of "ha # as"] by simp
  have pv: "get_prev ?h ha = Some ?a"
    using ring_prev_pos [OF rg, of 0] by simp
  have an: "get_next ?h ?a = Some ha"
    using ring_next_pos [OF rg, of "length as"] la by simp
  have bn: "get_next ?h ha = Some ?bn"
    using ring_next_nth [OF rg, of 0] by (cases as) auto
  have "?bn \<in> set (ha # as)" by (cases as) auto
  then have lbn: "live ?h ?bn" by (rule ring_live [OF rg])
  have lan: "live ?h ha" by (rule ring_live [OF rg]) simp
  obtain h1 where h1: "ListNode_splice ?a ha ?h = Some h1"
      "get_next h1 = (get_next ?h)(?a \<mapsto> ?bn, ha \<mapsto> ha)"
      "get_prev h1 = (get_prev ?h)(ha \<mapsto> ha, ?bn \<mapsto> ?a)"
      "get_val h1 = get_val ?h"
    using ListNode_splice_eff [OF an bn lan lbn] by blast
  have rings: "ring (get_next h1) (get_prev h1) ha [] \<and>
      (\<forall>n \<in> set (ha # as). well_linked h1 n)"
  proof (cases as)
    case Nil
    have "get_next h1 = get_next ?h" "get_prev h1 = get_prev ?h"
      using h1(2,3) an pv Nil by (auto simp: fun_eq_iff)
    then have "ring (get_next h1) (get_prev h1) ha []" using rg Nil by simp
    then show ?thesis using Nil ring_well_linked [of h1 ha "[]"] by simp
  next
    case (Cons x xs)
    have e: "?a = last (x # xs)" "?bn = x" using Cons by simp_all
    from ring_splice_self [of "get_next ?h" "get_prev ?h" ha x xs] rg Cons
    have 1: "ring (get_next h1) (get_prev h1) x xs" and 2: "ring (get_next h1) (get_prev h1) ha []"
      unfolding h1(2,3) e by simp_all
    show ?thesis
      using 2 ring_well_linked [OF 1] ring_well_linked [OF 2] Cons by auto
  qed
  then have self: "get_next h1 ha = Some ha" "get_prev h1 ha = Some ha"
    by (simp_all add: ring_empty)
  have lh: "live h1 ha" using self(1) by (rule get_next_live)
  obtain h2 where h2: "ListNode_remove ha h1 = Some (ha, h2)"
      "get_next h2 = (get_next h1)(ha \<mapsto> ha, ha \<mapsto> ha)"
      "get_prev h2 = (get_prev h1)(ha \<mapsto> ha, ha \<mapsto> ha)"
      "get_val h2 = get_val h1"
    using ListNode_remove_eff [OF self(2) self(1) lh lh] by blast
  have same: "get_next h2 = get_next h1" "get_prev h2 = get_prev h1"
    using h2(2,3) self by (auto simp: fun_eq_iff)
  have "well_linked h2 = well_linked h1"
    by (rule ext) (simp only: well_linked_def same)
  then have wl: "\<forall>n \<in> set (ha # as). well_linked h2 n"
    using rings by simp
  have rg2: "ring (get_next h2) (get_prev h2) ha []" using rings same by simp
  have "\<exists>s'. List_append_list A A s = Some (A, s') \<and> rep s' A ha [] 0 idx \<and> nodes s' = h2"
    using g pv h1(1) h2(1) rg2 hv h1(4) h2(4)
    by (simp add: List_append_list_def ListNode_prev_def list_simps rep_def)
  then show ?thesis using wl h1(4) h2(4) by auto
qed

text \<open>
  Every operation on one list keeps the index equal to the position of the window,
  and so the invariant of the cursor, except \<^verbatim>\<open>first()\<close> on an empty list.
\<close>

lemma cursor_kept:
  assumes r: "rep s this hdr ns i (int i)" and f: "op = First \<longrightarrow> ns \<noteq> []"
  shows "\<exists>v s' ns' i'. run_op op this s = Some (v, s') \<and> rep s' this hdr ns' i' (int i') \<and>
           invariant s' this"
proof -
  have i: "i \<le> length ns" using r by (simp add: rep_def)
  have "\<exists>v s' ns' i'. run_op op this s = Some (v, s') \<and> rep s' this hdr ns' i' (int i')"
  proof (cases op)
    case (Insert v)
    then show ?thesis using List_insert_rep [OF r, of v] by (simp; blast)
  next
    case (Prepend v)
    have "(if int i > 0 then int i + 1 else int i) = int (if i = 0 then 0 else Suc i)" by simp
    then show ?thesis using List_prepend_rep [OF r, of v] Prepend
      by (simp del: of_nat_Suc; metis)
  next
    case (Append v)
    then show ?thesis using List_append_rep [OF r, of v] by (simp; blast)
  next
    case Remove
    show ?thesis
    proof (cases "i = 0")
      case True
      then show ?thesis using List_remove_rep [OF r] r Remove by (simp; blast)
    next
      case False
      then have "int i - 1 = int (i - 1)" by simp
      then show ?thesis using List_remove_rep [OF r] False Remove
        by (simp del: of_nat_diff; metis)
    qed
  next
    case (SetVal v)
    then show ?thesis using List_val_set_rep [OF r, of v] r by (cases "i = 0"; simp; blast)
  next
    case Val
    then show ?thesis using List_val_rep [OF r] r by (simp; blast)
  next
    case (GetAt pt)
    show ?thesis
    proof (cases "pt < 1 \<or> pt > int (length ns)")
      case True
      then show ?thesis using List_GetAt_rep [OF r, of pt] r GetAt by (simp; blast)
    next
      case False
      then have q: "GetAt_pos (length ns) i (int i) pt = nat pt" "pt = int (nat pt)"
        using GetAt_pos_consistent [OF i, of pt] by simp_all
      from List_GetAt_rep [OF r, of pt] False obtain v s' where
        "List_GetAt this pt s = Some (v, s')" "rep s' this hdr ns (nat pt) pt"
        unfolding q(1) by auto
      then show ?thesis using GetAt q(2) by (simp; metis)
    qed
  next
    case Next
    have "(if int i + 1 > int (length ns) then 0 else int i + 1) = int (succ_pos (length ns) i)"
      using i by (simp add: succ_pos_def)
    then show ?thesis using List_next_rep [OF r] Next by (simp del: of_nat_Suc; metis)
  next
    case Prev
    have "(if int i - 1 < 0 then int (length ns) + (int i - 1) + 1 else int i - 1)
        = int (pred_pos (length ns) i)"
      by (auto simp: pred_pos_def)
    then show ?thesis using List_prev_rep [OF r] Prev by (simp del: of_nat_diff; metis)
  next
    case First
    then have "ns \<noteq> []" using f by simp
    from List_first_nonempty [OF r this] show ?thesis using First by (simp del: of_nat_Suc; blast)
  next
    case Last
    then show ?thesis using List_last_rep [OF r] by (simp; blast)
  qed
  then show ?thesis using rep_invariant by blast
qed

text \<open>
  What \<^verbatim>\<open>remove()\<close> does on a well-formed list with the window at position \<open>p\<close>,
  whatever the index field \<open>idx\<close> holds: nothing when the window is the header;
  otherwise it returns the element at \<open>p\<close>, takes it out and deletes its node, and
  leaves the window at \<open>p - 1\<close>, the length one less and the index \<open>idx - 1\<close>.
\<close>

lemma List_remove_effect:
  assumes r: "rep s this hdr ns p idx"
  shows "((get_win s this = get_header s this) = (p = 0)) \<and>
         (p = 0 \<longrightarrow> List_remove this s = Some (NULL, s)) \<and>
         (1 \<le> p \<longrightarrow>
            (\<exists>s'. List_remove this s = Some (elements s this ! (p - 1), s') \<and>
               rep s' this hdr (take (p - 1) ns @ drop p ns) (p - 1) (idx - 1) \<and>
               elements s' this = take (p - 1) (elements s this) @ drop p (elements s this) \<and>
               get_length s' this = Some (int (length ns) - 1) \<and>
               get_index s' this = Some (idx - 1) \<and>
               \<not> live (nodes s') (ns ! (p - 1))))"
proof (intro conjI impI)
  show "(get_win s this = get_header s this) = (p = 0)"
    using rep_win_hdr [OF r] by (simp add: rep_win [OF r] rep_header [OF r])
  show "List_remove this s = Some (NULL, s)" if "p = 0"
    using List_remove_rep [OF r] that by simp
  show "\<exists>s'. List_remove this s = Some (elements s this ! (p - 1), s') \<and>
               rep s' this hdr (take (p - 1) ns @ drop p ns) (p - 1) (idx - 1) \<and>
               elements s' this = take (p - 1) (elements s this) @ drop p (elements s this) \<and>
               get_length s' this = Some (int (length ns) - 1) \<and>
               get_index s' this = Some (idx - 1) \<and>
               \<not> live (nodes s') (ns ! (p - 1))" if "1 \<le> p"
  proof -
    from that obtain j where pj: "p = Suc j" by (cases p) auto
    have j: "j < length ns" using r pj by (simp add: rep_def)
    from List_remove_rep [OF r] pj obtain v s' where
      rm: "List_remove this s = Some (v, s')" "get_val (nodes s) (ns ! j) = Some v"
        "rep s' this hdr (take j ns @ drop (Suc j) ns) j (idx - 1)"
        "get_val (nodes s') = (get_val (nodes s))(ns ! j := None)"
      by auto
    have "elements s this ! j = v" using rep_value [OF r j rm(2)] .
    moreover have "\<not> live (nodes s') (ns ! j)"
      using rm(4) live_val [of "nodes s'" "ns ! j"] by auto
    moreover have "int (length (take j ns @ drop (Suc j) ns)) = int (length ns) - 1"
      using j by auto
    ultimately show ?thesis
      using rm remove_elements [OF r j rm(3) rm(4)] rep_length [OF rm(3)] rep_index [OF rm(3)] pj
      by simp
  qed
qed

text \<open>
  \<^verbatim>\<open>first()\<close> and one \<^verbatim>\<open>next()\<close> on an empty list, and one \<^verbatim>\<open>next()\<close> more than
  the length on a list that is not empty.
\<close>

lemma first_then_next_empty:
  assumes r: "rep s this hdr [] i idx"
  shows "\<exists>s'. first_then_next this (Suc 0) s = Some (NULL, s') \<and>
           rep s' this hdr [] 0 0 \<and> nodes s' = nodes s"
proof -
  have hv: "get_val (nodes s) hdr = Some NULL" using r by (simp add: rep_def)
  from List_first_rep [OF r] obtain v1 s1 where
    f: "List_first this s = Some (v1, s1)" "rep s1 this hdr [] 0 1" "nodes s1 = nodes s"
    by (auto simp: succ_pos_def)
  from List_next_rep [OF f(2)] hv f(3) obtain s' where
    n: "List_next this s1 = Some (NULL, s')" "rep s' this hdr [] 0 0" "nodes s' = nodes s1"
    by (auto simp: succ_pos_def)
  show ?thesis using f n by (simp add: first_then_next_def)
qed

lemma first_then_next_again:
  assumes r: "rep s this hdr ns i idx" and n: "ns \<noteq> []"
  shows "\<exists>s'. first_then_next this (Suc (length ns)) s = Some (elements s this ! 0, s') \<and>
           rep s' this hdr ns (Suc 0) (int (Suc 0)) \<and> nodes s' = nodes s"
proof -
  from first_then_next_wraps [OF r n] obtain s1 where
    w: "first_then_next this (length ns) s = Some (NULL, s1)" "rep s1 this hdr ns 0 0"
      "nodes s1 = nodes s"
    by blast
  have r1: "rep s1 this hdr ns 0 (int 0)" using w(2) by simp
  have l: "0 < length ns" using n by simp
  from List_next_inside [OF r1 l] obtain v s' where
    x: "List_next this s1 = Some (v, s')" "get_val (nodes s1) ((hdr # ns) ! Suc 0) = Some v"
      "rep s' this hdr ns (Suc 0) (int (Suc 0))" "nodes s' = nodes s1"
    by blast
  have "get_val (nodes s) (ns ! 0) = Some v" using x(2) w(3) by simp
  then have "elements s this ! 0 = v" by (rule rep_value [OF r l])
  then show ?thesis
    unfolding first_then_next_Suc using w(1,3) x(1,3,4) by simp
qed

section \<open>The claims\<close>

text \<open>
  C1. The claim: after any sequence of the public operations the cursor invariant
  holds (\<open>0 \<le> index \<le> length\<close>, and \<open>index = 0\<close> exactly when the window is the
  header), in particular after \<^verbatim>\<open>first()\<close> on an empty list. The program does not do
  that: \<^verbatim>\<open>first()\<close> sets \<^verbatim>\<open>_index=1\<close> whatever the length. On the list that the
  constructor has just built, where the invariant holds, \<^verbatim>\<open>first()\<close> returns the null
  value of the header and leaves the window on the header with \<open>index = 1\<close> and
  \<open>length = 0\<close>, so the invariant is broken.
\<close>

theorem first_on_empty_list_breaks_invariant:
  "List_new \<lparr>nodes = [], lists = []\<rparr> = (0, fresh_list) \<and>
   invariant fresh_list 0 \<and>
   List_first 0 fresh_list = Some (NULL, fresh_list_first) \<and>
   get_index fresh_list_first 0 = Some 1 \<and>
   get_length fresh_list_first 0 = Some 0 \<and>
   get_win fresh_list_first 0 = get_header fresh_list_first 0 \<and>
   \<not> invariant fresh_list_first 0"
  by code_simp

text \<open>
  C2, in the form that holds of the program. For a well-formed list of \<open>n\<close>
  values none of which is the null pointer, \<^verbatim>\<open>list2vector\<close> returns
  an array of length \<open>n\<close> whose entry \<open>k\<close>, for
  \<open>1 \<le> k \<le> n\<close>, is the integer boxed in the \<open>k\<close>-th value
  of the list counted from the first element; the length of the list and what it holds are
  unchanged; and the window is left on the header, with index 0 when
  \<open>n \<ge> 1\<close>.
\<close>

theorem list2vector_spec:
  assumes r: "rep s list hdr ns i idx" and nn: "NULL \<notin> set (elements s list)"
  shows "\<exists>out s' idx'. list2vector list s = Some (out, s') \<and>
           length out = length ns \<and>
           (\<forall>k. 1 \<le> k \<and> k \<le> int (length ns) \<longrightarrow>
              ivector_get out k = unbox (elements s list ! (nat k - 1)) \<and>
              (\<exists>g. elements s list ! (nat k - 1) = Obj g \<and> ivector_get out k = Some (data g))) \<and>
           get_length s' list = Some (int (length ns)) \<and>
           elements s' list = elements s list \<and>
           rep s' list hdr ns 0 idx' \<and> (ns \<noteq> [] \<longrightarrow> idx' = 0)"
proof (cases "ns = []")
  case True
  from List_first_rep [OF r] True obtain v1 s1 where
    f: "List_first list s = Some (v1, s1)" "rep s1 list hdr ns 0 1" "nodes s1 = nodes s"
    by (auto simp: succ_pos_def)
  have "list2vector list s = Some ([], s1)"
    using rep_length [OF r] f(1) True
    by (simp add: list2vector_def List_length_def ivector1_2_def
        list2vector_loop.simps [of list 1 0])
  moreover have "elements s1 list = elements s list"
    using rep_elements [OF r] rep_elements [OF f(2)] f(3) by simp
  ultimately show ?thesis using f(2) rep_length [OF f(2)] True by auto
next
  case False
  from List_first_nonempty [OF r False] obtain v1 s1 where
    f: "List_first list s = Some (v1, s1)" "rep s1 list hdr ns (Suc 0) (int (Suc 0))"
      "nodes s1 = nodes s"
    by blast
  have el1: "elements s1 list = elements s list"
    using rep_elements [OF r] rep_elements [OF f(2)] f(3) by simp
  have r1: "rep s1 list hdr ns (nat 1) 1" using f(2) by simp
  have le: "(1::int) \<le> int (length ns)" using False by (cases ns) auto
  let ?out = "replicate (length ns) None :: ivector"
  from list2vector_loop_rep [OF r1 _ le, of ?out] nn el1 obtain out' s' where
    l: "list2vector_loop list 1 (int (length ns)) ?out s1 = Some (out', s')"
      "rep s' list hdr ns 0 0" "nodes s' = nodes s1" "length out' = length ns"
      "\<forall>k < length ns. out' ! k =
          (if 1 \<le> int k + 1 then unbox (elements s list ! k) else ?out ! k)"
    by auto
  have run: "list2vector list s = Some (out', s')"
    using rep_length [OF r] f(1) l(1)
    by (simp add: list2vector_def List_length_def ivector1_2_def)
  have el: "elements s' list = elements s list"
    using rep_elements [OF r] rep_elements [OF l(2)] l(3) f(3) by simp
  have cells: "ivector_get out' k = unbox (elements s list ! (nat k - 1)) \<and>
      (\<exists>g. elements s list ! (nat k - 1) = Obj g \<and> ivector_get out' k = Some (data g))"
    if k: "1 \<le> k \<and> k \<le> int (length ns)" for k
  proof -
    have lt: "nat k - 1 < length ns" using k by auto
    have "nat (k - 1) = nat k - 1" by (simp add: nat_diff_distrib')
    then have g: "ivector_get out' k = unbox (elements s list ! (nat k - 1))"
      using l(4,5) k lt by (simp add: ivector_get_def)
    have "elements s list ! (nat k - 1) \<in> set (elements s list)"
      using lt rep_elements [OF r] by (metis length_map nth_mem)
    then have "elements s list ! (nat k - 1) \<noteq> NULL" using nn by metis
    then obtain b where "elements s list ! (nat k - 1) = Obj b"
      by (cases "elements s list ! (nat k - 1)") auto
    then show ?thesis using g by (simp add: unbox_def)
  qed
  show ?thesis
    using run l(2,4) el rep_length [OF l(2)] cells by blast
qed

theorem list2vector_spec_witness:
  "rep three_elems_at_2 0 0 [1, 2, 3] 2 2 \<and> NULL \<notin> set (elements three_elems_at_2 0) \<and>
   (\<exists>out s'. list2vector 0 three_elems_at_2 = Some (out, s') \<and> length out = 3 \<and>
      ivector_get out 1 = Some 1 \<and> ivector_get out 2 = Some 2 \<and> ivector_get out 3 = Some 3 \<and>
      get_length s' 0 = Some 3 \<and> rep s' 0 0 [1, 2, 3] 0 0)"
proof -
  have 1: "rep three_elems_at_2 0 0 [1, 2, 3] 2 2" by code_simp
  have 2: "elements three_elems_at_2 0 = [Obj (gInt 1), Obj (gInt 2), Obj (gInt 3)]"
    by code_simp
  have 3: "NULL \<notin> set (elements three_elems_at_2 0)" unfolding 2 by simp
  from list2vector_spec [OF 1 3] obtain out s' idx' where
    l: "list2vector 0 three_elems_at_2 = Some (out, s')" "length out = length [1::nat, 2, 3]"
      "\<forall>k. 1 \<le> k \<and> k \<le> int (length [1::nat, 2, 3]) \<longrightarrow>
         ivector_get out k = unbox (elements three_elems_at_2 0 ! (nat k - 1)) \<and>
         (\<exists>g. elements three_elems_at_2 0 ! (nat k - 1) = Obj g \<and>
              ivector_get out k = Some (data g))"
      "get_length s' 0 = Some (int (length [1::nat, 2, 3]))"
      "rep s' 0 0 [1, 2, 3] 0 idx'" "[1::nat, 2, 3] \<noteq> [] \<longrightarrow> idx' = 0"
    by blast
  have "ivector_get out 1 = Some 1" "ivector_get out 2 = Some 2" "ivector_get out 3 = Some 3"
    using l(3) [rule_format, of 1] l(3) [rule_format, of 2] l(3) [rule_format, of 3]
    unfolding 2 by (simp_all add: unbox_def)
  then show ?thesis using 1 3 l by auto
qed

text \<open>
  C2 as stated fails: on the list that holds the one value 7, \<^verbatim>\<open>list2vector\<close> returns
  the array with the entry 7 and leaves the window on the header (node 0) with index
  0, not on the last element (node 1, position 1).
\<close>

theorem list2vector_parks_at_header:
  "list2vector 0 one_elem = Some ([Some 7], one_elem) \<and>
   ring_nodes one_elem 0 = [1] \<and> get_length one_elem 0 = Some 1 \<and>
   get_header one_elem 0 = Some 0 \<and> get_win one_elem 0 = Some 0 \<and>
   get_index one_elem 0 = Some 0"
  by code_simp

text \<open>
  C3. The claim: \<^verbatim>\<open>A.append(B)\<close> returns \<open>A\<close>, leaves in \<open>A\<close> the elements of \<open>A\<close>
  followed by those of \<open>B\<close>, and leaves \<open>B\<close> empty, with length 0, a header that is
  a ring of its own and the window on it, so that insertions on \<open>B\<close> behave as on a
  fresh list. The program does the first part but does not reset \<^verbatim>\<open>_index\<close> of \<open>B\<close>.
  With \<open>A\<close> holding 1, 2, 3 and \<open>B\<close> holding 4, 5 with its window on its first element:
  after the merge \<open>A\<close> holds 1, 2, 3, 4, 5 and \<open>B\<close> is empty with its window on its
  header, but the index of \<open>B\<close> is still 1. After \<^verbatim>\<open>B.append(7)\<close>, \<^verbatim>\<open>B.GetAt(1)\<close>
  finds the index equal to the position asked for and returns the null value of the
  header, where the same two calls on a fresh list return 7.
\<close>

theorem append_list_leaves_stale_index:
  "List_append_list 0 1 two_lists = Some (0, merged) \<and>
   elements two_lists 0 = [Obj (gInt 1), Obj (gInt 2), Obj (gInt 3)] \<and>
   elements two_lists 1 = [Obj (gInt 4), Obj (gInt 5)] \<and>
   elements merged 0 = [Obj (gInt 1), Obj (gInt 2), Obj (gInt 3), Obj (gInt 4), Obj (gInt 5)] \<and>
   get_length merged 0 = Some 5 \<and>
   elements merged 1 = [] \<and> get_length merged 1 = Some 0 \<and>
   get_win merged 1 = get_header merged 1 \<and>
   get_index merged 1 = Some 1 \<and> \<not> invariant merged 1 \<and>
   List_append 1 (Obj (gInt 7)) merged = Some (Obj (gInt 7), merged_appended) \<and>
   elements merged_appended 1 = [Obj (gInt 7)] \<and>
   List_GetAt 1 1 merged_appended = Some (NULL, merged_appended) \<and>
   List_append 0 (Obj (gInt 7)) fresh_list = Some (Obj (gInt 7), one_elem) \<and>
   elements one_elem 0 = [Obj (gInt 7)] \<and>
   List_GetAt 0 1 one_elem = Some (Obj (gInt 7), one_elem_focused)"
  by code_simp

text \<open>
  C4. The claim: \<^verbatim>\<open>remove()\<close> returns the null value when the window is the header,
  and on an empty list leaves length 0 and index 0; otherwise it returns the value of
  the element under the window, removes that element, decrements length and index and
  leaves the cursor one position back, at the header with index 0 when the element was
  the first. \<^verbatim>\<open>remove()\<close> does return, unlink and decrement as said, but the index it
  starts from is not always the position of the window. After \<^verbatim>\<open>first()\<close> on the
  fresh list (which is what \<^verbatim>\<open>Stack::pop\<close> does first) the list is empty with the
  window on the header and index 1, and \<^verbatim>\<open>remove()\<close> returns the null value and leaves
  length 0 and index 1. After \<^verbatim>\<open>append(7)\<close> and \<^verbatim>\<open>next()\<close> the window is on the
  first element with index 0, and \<^verbatim>\<open>remove()\<close> returns 7 and leaves the window on
  the header with length 0 and index \<open>-1\<close>.
\<close>

theorem remove_with_stale_index:
  "List_first 0 fresh_list = Some (NULL, fresh_list_first) \<and>
   Stack_pop 0 fresh_list = Some (NULL, fresh_list_first) \<and>
   elements fresh_list_first 0 = [] \<and>
   get_win fresh_list_first 0 = get_header fresh_list_first 0 \<and>
   List_remove 0 fresh_list_first = Some (NULL, fresh_list_first) \<and>
   get_length fresh_list_first 0 = Some 0 \<and>
   get_index fresh_list_first 0 = Some 1 \<and>
   List_append 0 (Obj (gInt 7)) fresh_list_first = Some (Obj (gInt 7), one_elem_stale) \<and>
   List_next 0 one_elem_stale = Some (Obj (gInt 7), one_elem_index_0) \<and>
   ring_nodes one_elem_index_0 0 = [1] \<and>
   get_win one_elem_index_0 0 = Some 1 \<and>
   get_index one_elem_index_0 0 = Some 0 \<and>
   List_remove 0 one_elem_index_0 = Some (Obj (gInt 7), emptied_negative) \<and>
   get_win emptied_negative 0 = get_header emptied_negative 0 \<and>
   get_length emptied_negative 0 = Some 0 \<and>
   get_index emptied_negative 0 = Some (- 1)"
  by code_simp

text \<open>
  C5, in the form that holds of the program. On a well-formed list whose index agrees with
  the position of the window: \<^verbatim>\<open>GetAt(pt)\<close> returns the null value
  and changes nothing when \<open>pt < 1\<close> or \<open>pt > length\<close>; for a
  valid position it returns the value stored at that position, which is the value that
  \<^verbatim>\<open>first()\<close> followed by \<open>pt - 1\<close> calls of
  \<^verbatim>\<open>next()\<close> returns, sets the index to \<open>pt\<close> and
  leaves the window on the element at that position. So the result is null exactly when
  the position is out of range or the value stored at the position is itself the null
  pointer.
\<close>

theorem GetAt_spec:
  assumes r: "rep s this hdr ns i (int i)"
  shows "(pt < 1 \<or> pt > int (length ns) \<longrightarrow> List_GetAt this pt s = Some (NULL, s)) \<and>
         (1 \<le> pt \<and> pt \<le> int (length ns) \<longrightarrow>
            (\<exists>s' s''. List_GetAt this pt s = Some (elements s this ! (nat pt - 1), s') \<and>
               first_then_next this (nat pt - 1) s = Some (elements s this ! (nat pt - 1), s'') \<and>
               rep s' this hdr ns (nat pt) pt \<and> elements s' this = elements s this)) \<and>
         (\<forall>v s'. List_GetAt this pt s = Some (v, s') \<longrightarrow>
            (v = NULL) = (pt < 1 \<or> pt > int (length ns) \<or> elements s this ! (nat pt - 1) = NULL))"
proof -
  have i: "i \<le> length ns" using r by (simp add: rep_def)
  have out: "List_GetAt this pt s = Some (NULL, s)" if "pt < 1 \<or> pt > int (length ns)"
    using List_GetAt_rep [OF r, of pt] that by simp
  have inside: "\<exists>s' s''. List_GetAt this pt s = Some (elements s this ! (nat pt - 1), s') \<and>
               first_then_next this (nat pt - 1) s = Some (elements s this ! (nat pt - 1), s'') \<and>
               rep s' this hdr ns (nat pt) pt \<and> elements s' this = elements s this"
    if pt: "1 \<le> pt \<and> pt \<le> int (length ns)"
  proof -
    have q: "GetAt_pos (length ns) i (int i) pt = nat pt"
      using GetAt_pos_consistent [OF i] pt by simp
    have k: "nat pt - 1 < length ns" using pt by auto
    have e: "(hdr # ns) ! nat pt = ns ! (nat pt - 1)" using pt by (cases "nat pt") auto
    from List_GetAt_rep [OF r, of pt] pt obtain v s' where
      g: "List_GetAt this pt s = Some (v, s')" "get_val (nodes s) ((hdr # ns) ! nat pt) = Some v"
        "rep s' this hdr ns (nat pt) pt" "nodes s' = nodes s"
      unfolding q by auto
    have v: "elements s this ! (nat pt - 1) = v"
      using rep_value [OF r k, of v] g(2) e by simp
    obtain s'' where "first_then_next this (nat pt - 1) s = Some (elements s this ! (nat pt - 1), s'')"
      using first_then_next_rep [OF r k] by blast
    moreover have "elements s' this = elements s this"
      using rep_elements [OF r] rep_elements [OF g(3)] g(4) by simp
    ultimately show ?thesis using g v by auto
  qed
  show ?thesis
  proof (intro conjI impI allI)
    show "List_GetAt this pt s = Some (NULL, s)" if "pt < 1 \<or> pt > int (length ns)"
      using out that .
    show "\<exists>s' s''. List_GetAt this pt s = Some (elements s this ! (nat pt - 1), s') \<and>
               first_then_next this (nat pt - 1) s = Some (elements s this ! (nat pt - 1), s'') \<and>
               rep s' this hdr ns (nat pt) pt \<and> elements s' this = elements s this"
      if "1 \<le> pt \<and> pt \<le> int (length ns)"
      using inside that .
    show "(v = NULL) = (pt < 1 \<or> pt > int (length ns) \<or> elements s this ! (nat pt - 1) = NULL)"
      if "List_GetAt this pt s = Some (v, s')" for v s'
    proof (cases "pt < 1 \<or> pt > int (length ns)")
      case True
      then show ?thesis using out that by auto
    next
      case False
      then have "1 \<le> pt \<and> pt \<le> int (length ns)" by simp
      from inside [OF this] that False show ?thesis by auto
    qed
  qed
qed

theorem GetAt_spec_witness:
  "rep three_elems 0 0 [1, 2, 3] 0 (int 0) \<and>
   List_GetAt 0 4 three_elems = Some (NULL, three_elems) \<and>
   (\<exists>s' s''. List_GetAt 0 2 three_elems = Some (Obj (gInt 2), s') \<and>
      first_then_next 0 1 three_elems = Some (Obj (gInt 2), s'') \<and>
      rep s' 0 0 [1, 2, 3] 2 2)"
proof -
  have 1: "rep three_elems 0 0 [1, 2, 3] 0 (int 0)" by code_simp
  have 2: "elements three_elems 0 = [Obj (gInt 1), Obj (gInt 2), Obj (gInt 3)]"
    by code_simp
  from GetAt_spec [OF 1, of 4] GetAt_spec [OF 1, of 2] 1 2 show ?thesis by auto
qed

text \<open>
  C5 as stated fails: \<^verbatim>\<open>append(NULL)\<close> on the fresh list gives a list of length 1,
  and \<^verbatim>\<open>GetAt(1)\<close> on it returns the null value although position 1 is in range.
\<close>

theorem GetAt_null_in_range:
  "List_append 0 NULL fresh_list = Some (NULL, null_elem) \<and>
   get_length null_elem 0 = Some 1 \<and>
   List_GetAt 0 1 null_elem = Some (NULL, null_elem_focused) \<and>
   \<not> ((1::int) < 1 \<or> (1::int) > 1)"
  by code_simp

text \<open>
  C6, in the form that holds of the program. On a well-formed list of \<open>n\<close> elements,
  whatever the cursor was: \<^verbatim>\<open>first()\<close> followed by \<open>k\<close> calls of \<^verbatim>\<open>next()\<close>, for
  \<open>k < n\<close>, returns the element at position \<open>k + 1\<close> and leaves window and index
  there, so that \<^verbatim>\<open>first()\<close> and the first \<open>n - 1\<close> calls visit the \<open>n\<close> elements in
  order. When \<open>n \<ge> 1\<close>, the \<open>n\<close>-th call of \<^verbatim>\<open>next()\<close> lands the window on the
  header, returns its null value and resets the index to 0, and the \<open>(n+1)\<close>-th call
  focuses position 1 again. When \<open>n = 0\<close>, it is the \<open>(n+1)\<close>-th call, the first one,
  that lands the window on the header with the index reset to 0.
\<close>

theorem first_then_next_visits:
  assumes r: "rep s this hdr ns i idx"
  shows "(\<forall>k < length ns. \<exists>s'. first_then_next this k s = Some (elements s this ! k, s') \<and>
            rep s' this hdr ns (Suc k) (int (Suc k)) \<and> elements s' this = elements s this) \<and>
         (ns \<noteq> [] \<longrightarrow> (\<exists>s'. first_then_next this (length ns) s = Some (NULL, s') \<and>
            rep s' this hdr ns 0 0 \<and> elements s' this = elements s this)) \<and>
         (ns \<noteq> [] \<longrightarrow> (\<exists>s'. first_then_next this (Suc (length ns)) s =
              Some (elements s this ! 0, s') \<and>
            rep s' this hdr ns 1 1 \<and> elements s' this = elements s this)) \<and>
         (ns = [] \<longrightarrow> (\<exists>s'. first_then_next this (Suc (length ns)) s = Some (NULL, s') \<and>
            rep s' this hdr ns 0 0 \<and> elements s' this = elements s this))"
proof (intro conjI allI impI)
  fix k assume k: "k < length ns"
  from first_then_next_rep [OF r k] obtain s' where
    f: "first_then_next this k s = Some (elements s this ! k, s')"
      "rep s' this hdr ns (Suc k) (int (Suc k))" "nodes s' = nodes s"
    by blast
  have "elements s' this = elements s this"
    using rep_elements [OF r] rep_elements [OF f(2)] f(3) by simp
  then show "\<exists>s'. first_then_next this k s = Some (elements s this ! k, s') \<and>
            rep s' this hdr ns (Suc k) (int (Suc k)) \<and> elements s' this = elements s this"
    using f by blast
next
  assume n: "ns \<noteq> []"
  from first_then_next_wraps [OF r n] obtain s' where
    f: "first_then_next this (length ns) s = Some (NULL, s')"
      "rep s' this hdr ns 0 0" "nodes s' = nodes s"
    by blast
  have "elements s' this = elements s this"
    using rep_elements [OF r] rep_elements [OF f(2)] f(3) by simp
  then show "\<exists>s'. first_then_next this (length ns) s = Some (NULL, s') \<and>
            rep s' this hdr ns 0 0 \<and> elements s' this = elements s this"
    using f by blast
next
  assume n: "ns \<noteq> []"
  from first_then_next_again [OF r n] obtain s' where
    f: "first_then_next this (Suc (length ns)) s = Some (elements s this ! 0, s')"
      "rep s' this hdr ns 1 1" "nodes s' = nodes s"
    by auto
  have "elements s' this = elements s this"
    using rep_elements [OF r] rep_elements [OF f(2)] f(3) by simp
  then show "\<exists>s'. first_then_next this (Suc (length ns)) s = Some (elements s this ! 0, s') \<and>
            rep s' this hdr ns 1 1 \<and> elements s' this = elements s this"
    using f by blast
next
  assume n: "ns = []"
  from first_then_next_empty [of s this hdr i idx] r n obtain s' where
    f: "first_then_next this (Suc 0) s = Some (NULL, s')"
      "rep s' this hdr ns 0 0" "nodes s' = nodes s"
    by auto
  have "elements s' this = elements s this"
    using rep_elements [OF r] rep_elements [OF f(2)] f(3) by simp
  then show "\<exists>s'. first_then_next this (Suc (length ns)) s = Some (NULL, s') \<and>
            rep s' this hdr ns 0 0 \<and> elements s' this = elements s this"
    using f n by auto
qed

theorem first_then_next_visits_witness:
  "rep three_elems_at_2 0 0 [1, 2, 3] 2 2 \<and> rep fresh_list_first 0 0 [] 0 1 \<and>
   (\<exists>s'. first_then_next 0 2 three_elems_at_2 = Some (Obj (gInt 3), s') \<and> rep s' 0 0 [1, 2, 3] 3 3) \<and>
   (\<exists>s'. first_then_next 0 3 three_elems_at_2 = Some (NULL, s') \<and> rep s' 0 0 [1, 2, 3] 0 0) \<and>
   (\<exists>s'. first_then_next 0 4 three_elems_at_2 = Some (Obj (gInt 1), s') \<and> rep s' 0 0 [1, 2, 3] 1 1) \<and>
   (\<exists>s'. first_then_next 0 1 fresh_list_first = Some (NULL, s') \<and> rep s' 0 0 [] 0 0)"
proof -
  have 1: "rep three_elems_at_2 0 0 [1, 2, 3] 2 2" by code_simp
  have 2: "elements three_elems_at_2 0 = [Obj (gInt 1), Obj (gInt 2), Obj (gInt 3)]"
    by code_simp
  have 3: "(2::nat) < length [1::nat, 2, 3]" by simp
  have 4: "rep fresh_list_first 0 0 [] 0 1" by code_simp
  have 5: "[1::nat, 2, 3] \<noteq> []" by simp
  have 6: "Suc (length [1::nat, 2, 3]) = 4" "length [1::nat, 2, 3] = 3" "Suc (length ([]::nat list)) = 1"
    by simp_all
  from first_then_next_visits [OF 1] have
    a: "\<exists>s'. first_then_next 0 2 three_elems_at_2 = Some (elements three_elems_at_2 0 ! 2, s') \<and>
        rep s' 0 0 [1, 2, 3] (Suc 2) (int (Suc 2)) \<and> elements s' 0 = elements three_elems_at_2 0"
    and b: "\<exists>s'. first_then_next 0 (length [1::nat, 2, 3]) three_elems_at_2 = Some (NULL, s') \<and>
        rep s' 0 0 [1, 2, 3] 0 0 \<and> elements s' 0 = elements three_elems_at_2 0"
    and c: "\<exists>s'. first_then_next 0 (Suc (length [1::nat, 2, 3])) three_elems_at_2 =
          Some (elements three_elems_at_2 0 ! 0, s') \<and>
        rep s' 0 0 [1, 2, 3] 1 1 \<and> elements s' 0 = elements three_elems_at_2 0"
    using 3 5 by blast+
  from first_then_next_visits [OF 4] have
    d: "\<exists>s'. first_then_next 0 (Suc (length ([]::nat list))) fresh_list_first = Some (NULL, s') \<and>
        rep s' 0 0 [] 0 0 \<and> elements s' 0 = elements fresh_list_first 0"
    by blast
  have a': "\<exists>s'. first_then_next 0 2 three_elems_at_2 = Some (Obj (gInt 3), s') \<and> rep s' 0 0 [1, 2, 3] 3 3"
    using a unfolding 2 by (auto simp: numeral_3_eq_3)
  have b': "\<exists>s'. first_then_next 0 3 three_elems_at_2 = Some (NULL, s') \<and> rep s' 0 0 [1, 2, 3] 0 0"
    using b unfolding 6 by blast
  have c': "\<exists>s'. first_then_next 0 4 three_elems_at_2 = Some (Obj (gInt 1), s') \<and> rep s' 0 0 [1, 2, 3] 1 1"
    using c unfolding 6 2 by auto
  have d': "\<exists>s'. first_then_next 0 1 fresh_list_first = Some (NULL, s') \<and> rep s' 0 0 [] 0 0"
    using d unfolding 6 by blast
  show ?thesis using 1 4 a' b' c' d' by blast
qed

text \<open>
  C6 as stated fails: on the list that holds the one value 7 (\<open>n = 1\<close>), the
  \<open>(n+1)\<close>-th call of \<^verbatim>\<open>next()\<close> after \<^verbatim>\<open>first()\<close> is the second one; it returns 7 and
  leaves the window on the element (node 1, not the header 0) with index 1.
\<close>

theorem second_next_leaves_header:
  "first_then_next 0 2 one_elem = Some (Obj (gInt 7), one_elem_focused) \<and>
   get_length one_elem 0 = Some 1 \<and>
   get_win one_elem_focused 0 = Some 1 \<and> get_header one_elem_focused 0 = Some 0 \<and>
   get_index one_elem_focused 0 = Some 1"
  by code_simp

text \<open>
  C7. After any sequence of the operations \<^verbatim>\<open>insert\<close>, \<^verbatim>\<open>prepend\<close>, \<^verbatim>\<open>append\<close>,
  \<^verbatim>\<open>remove\<close>, \<^verbatim>\<open>val\<close>, \<^verbatim>\<open>GetAt\<close>, \<^verbatim>\<open>next\<close>, \<^verbatim>\<open>prev\<close>, \<^verbatim>\<open>first\<close>, \<^verbatim>\<open>last\<close> on a
  well-formed list (whatever its index field holds), the list is well formed and every
  node of its ring is well linked: the next of its prev and the prev of its next are
  the node itself. After \<^verbatim>\<open>append(List*)\<close> on two different well-formed lists with
  separate rings the same holds for the rings of both, and after \<^verbatim>\<open>append(List*)\<close> of
  a list to itself it holds for the header and for every node that the list held. A
  node just created is a ring of its own, and so is a node that \<^verbatim>\<open>ListNode::remove\<close>
  has taken out of a ring.
\<close>

theorem ring_links_after_operations:
  "(rep s this hdr ns i idx \<longrightarrow>
      (\<exists>s' ns' i' idx'. run_ops ops this s = Some s' \<and> rep s' this hdr ns' i' idx' \<and>
         (\<forall>n \<in> set (cycle s' this). well_linked (nodes s') n))) \<and>
   (rep s A ha as ia idxa \<and> rep s B hb bs ib idxb \<and> A \<noteq> B \<and>
    set (ha # as) \<inter> set (hb # bs) = {} \<longrightarrow>
      (\<exists>s'. List_append_list A B s = Some (A, s') \<and>
         rep s' A ha (as @ bs) ia idxa \<and> rep s' B hb [] 0 idxb \<and>
         (\<forall>n \<in> set (cycle s' A) \<union> set (cycle s' B). well_linked (nodes s') n))) \<and>
   (rep s A ha as ia idxa \<longrightarrow>
      (\<exists>s'. List_append_list A A s = Some (A, s') \<and> rep s' A ha [] 0 idxa \<and>
         (\<forall>n \<in> set (ha # as). well_linked (nodes s') n))) \<and>
   (get_next (snd (new_ListNode v h)) (fst (new_ListNode v h)) = Some (fst (new_ListNode v h)) \<and>
    get_prev (snd (new_ListNode v h)) (fst (new_ListNode v h)) = Some (fst (new_ListNode v h))) \<and>
   (ring (get_next h) (get_prev h) hdr' ms \<and> j < length ms \<longrightarrow>
      (\<exists>h'. ListNode_remove (ms ! j) h = Some (ms ! j, h') \<and>
         get_next h' (ms ! j) = Some (ms ! j) \<and> get_prev h' (ms ! j) = Some (ms ! j)))"
proof (intro conjI impI)
  assume r: "rep s this hdr ns i idx"
  from run_ops_rep [OF r, of ops] obtain s' ns' i' idx' where
    1: "run_ops ops this s = Some s'" "rep s' this hdr ns' i' idx'"
    by blast
  have "\<forall>n \<in> set (cycle s' this). well_linked (nodes s') n"
    using rep_well_linked [OF 1(2)] by blast
  then show "\<exists>s' ns' i' idx'. run_ops ops this s = Some s' \<and> rep s' this hdr ns' i' idx' \<and>
         (\<forall>n \<in> set (cycle s' this). well_linked (nodes s') n)"
    using 1 by blast
next
  assume a: "rep s A ha as ia idxa \<and> rep s B hb bs ib idxb \<and> A \<noteq> B \<and>
    set (ha # as) \<inter> set (hb # bs) = {}"
  then have ra: "rep s A ha as ia idxa" and rb: "rep s B hb bs ib idxb" and ne: "A \<noteq> B"
    and disj: "set (ha # as) \<inter> set (hb # bs) = {}"
    by blast+
  from List_append_list_rep [OF ra rb ne disj] obtain s' where
    1: "List_append_list A B s = Some (A, s')" "rep s' A ha (as @ bs) ia idxa"
      "rep s' B hb [] 0 idxb"
    by blast
  have "\<forall>n \<in> set (cycle s' A) \<union> set (cycle s' B). well_linked (nodes s') n"
    using rep_well_linked [OF 1(2)] rep_well_linked [OF 1(3)] by blast
  then show "\<exists>s'. List_append_list A B s = Some (A, s') \<and>
         rep s' A ha (as @ bs) ia idxa \<and> rep s' B hb [] 0 idxb \<and>
         (\<forall>n \<in> set (cycle s' A) \<union> set (cycle s' B). well_linked (nodes s') n)"
    using 1 by blast
next
  assume "rep s A ha as ia idxa"
  from List_append_list_self_rep [OF this]
  show "\<exists>s'. List_append_list A A s = Some (A, s') \<and> rep s' A ha [] 0 idxa \<and>
         (\<forall>n \<in> set (ha # as). well_linked (nodes s') n)"
    by blast
next
  show "get_next (snd (new_ListNode v h)) (fst (new_ListNode v h)) = Some (fst (new_ListNode v h))"
    using new_ListNode_eff [of v h "snd (new_ListNode v h)"]
    by (simp add: new_ListNode_def)
  show "get_prev (snd (new_ListNode v h)) (fst (new_ListNode v h)) = Some (fst (new_ListNode v h))"
    using new_ListNode_eff [of v h "snd (new_ListNode v h)"]
    by (simp add: new_ListNode_def)
next
  assume "ring (get_next h) (get_prev h) hdr' ms \<and> j < length ms"
  then have rg: "ring (get_next h) (get_prev h) hdr' ms" and j: "j < length ms" by blast+
  from unlink_node [OF rg j]
  show "\<exists>h'. ListNode_remove (ms ! j) h = Some (ms ! j, h') \<and>
         get_next h' (ms ! j) = Some (ms ! j) \<and> get_prev h' (ms ! j) = Some (ms ! j)"
    by blast
qed

theorem ring_links_after_operations_witness:
  "rep two_lists 0 0 [1, 2, 3] 0 0 \<and> rep two_lists 1 4 [5, 6] 1 1 \<and> (0::nat) \<noteq> 1 \<and>
   set (0 # [1, 2, 3]) \<inter> set (4 # [5, 6 :: nat]) = {} \<and>
   ring (get_next (nodes two_lists)) (get_prev (nodes two_lists)) 0 [1, 2, 3] \<and>
   (1::nat) < length [1, 2, 3 :: nat] \<and>
   (\<exists>s' ns' i' idx'. run_ops [First, Next, Remove, Prepend (Obj (gInt 8)), GetAt 2, Prev, Last,
        Insert NULL, Append NULL] 0 two_lists = Some s' \<and>
      rep s' 0 0 ns' i' idx' \<and> (\<forall>n \<in> set (cycle s' 0). well_linked (nodes s') n)) \<and>
   (\<exists>s'. List_append_list 0 1 two_lists = Some (0, s') \<and>
      (\<forall>n \<in> set (cycle s' 0) \<union> set (cycle s' 1). well_linked (nodes s') n)) \<and>
   (\<exists>s'. List_append_list 0 0 two_lists = Some (0, s') \<and> rep s' 0 0 [] 0 0 \<and>
      (\<forall>n \<in> set (0 # [1, 2, 3]). well_linked (nodes s') n)) \<and>
   (\<exists>h'. ListNode_remove 2 (nodes two_lists) = Some (2, h') \<and>
      get_next h' 2 = Some 2 \<and> get_prev h' 2 = Some 2)"
proof -
  have 1: "rep two_lists 0 0 [1, 2, 3] 0 0" by code_simp
  have 2: "rep two_lists 1 4 [5, 6] 1 1" by code_simp
  have 3: "(0::nat) \<noteq> 1" by simp
  have 4: "set (0 # [1, 2, 3]) \<inter> set (4 # [5, 6 :: nat]) = {}" by simp
  have 5: "ring (get_next (nodes two_lists)) (get_prev (nodes two_lists)) 0 [1, 2, 3]"
    using 1 by (simp add: rep_def)
  have 6: "(1::nat) < length [1, 2, 3 :: nat]" by simp
  have 7: "[1, 2, 3 :: nat] ! 1 = 2" by simp
  note t = ring_links_after_operations [of two_lists 0 0 "[1, 2, 3]" 0 0
      "[First, Next, Remove, Prepend (Obj (gInt 8)), GetAt 2, Prev, Last, Insert NULL, Append NULL]"
      0 0 "[1, 2, 3]" 0 0 1 4 "[5, 6]" 1 1 NULL "nodes two_lists" 0 "[1, 2, 3]" 1]
  from t have a: "\<exists>s' ns' i' idx'. run_ops [First, Next, Remove, Prepend (Obj (gInt 8)), GetAt 2,
        Prev, Last, Insert NULL, Append NULL] 0 two_lists = Some s' \<and>
      rep s' 0 0 ns' i' idx' \<and> (\<forall>n \<in> set (cycle s' 0). well_linked (nodes s') n)"
    using 1 by blast
  from t have b: "\<exists>s'. List_append_list 0 1 two_lists = Some (0, s') \<and>
      rep s' 0 0 ([1, 2, 3] @ [5, 6]) 0 0 \<and> rep s' 1 4 [] 0 1 \<and>
      (\<forall>n \<in> set (cycle s' 0) \<union> set (cycle s' 1). well_linked (nodes s') n)"
    using 1 2 3 4 by blast
  from t have c: "\<exists>h'. ListNode_remove ([1, 2, 3] ! 1) (nodes two_lists) = Some ([1, 2, 3] ! 1, h') \<and>
      get_next h' ([1, 2, 3] ! 1) = Some ([1, 2, 3] ! 1) \<and>
      get_prev h' ([1, 2, 3] ! 1) = Some ([1, 2, 3] ! 1)"
    using 5 6 by blast
  from t have d: "\<exists>s'. List_append_list 0 0 two_lists = Some (0, s') \<and> rep s' 0 0 [] 0 0 \<and>
      (\<forall>n \<in> set (0 # [1, 2, 3]). well_linked (nodes s') n)"
    using 1 by blast
  show ?thesis using 1 2 3 4 5 6 a b c d unfolding 7 by blast
qed

text \<open>
  C8. On an empty stack (a well-formed list with no element, whatever its index
  field holds), pushing the values \<open>vs\<close> in order and then popping \<open>length vs\<close> times
  returns \<open>rev vs\<close>, and one more pop on the stack, empty again, returns the null value.
\<close>

theorem stack_push_pop_reverse:
  assumes r: "rep s st hdr [] i idx"
  shows "\<exists>s1 s2 s3. pushes st vs s = Some s1 \<and>
           pops (length vs) st s1 = Some (rev vs, s2) \<and>
           Stack_pop st s2 = Some (NULL, s3) \<and>
           Stack_size st s1 = Some (int (length vs)) \<and> Stack_size st s2 = Some 0"
proof -
  have e: "elements s st = []" using rep_elements [OF r] by simp
  from pushes_rep [OF r, of vs] obtain s1 ns1 i1 idx1 where
    p: "pushes st vs s = Some s1" "rep s1 st hdr ns1 i1 idx1" "elements s1 st = rev vs"
    using e by auto
  have len: "length ns1 = length vs"
    using rep_elements [OF p(2)] p(3) by (metis length_map length_rev)
  then have "length vs \<le> length ns1" by simp
  from pops_rep [OF p(2) this] obtain s2 i2 idx2 where
    q: "pops (length vs) st s1 = Some (take (length vs) (elements s1 st), s2)"
      "rep s2 st hdr (drop (length vs) ns1) i2 idx2"
    by blast
  have r2: "rep s2 st hdr [] i2 idx2" using q(2) len by simp
  from Stack_pop_empty [OF r2] obtain s3 where "Stack_pop st s2 = Some (NULL, s3)" by blast
  then show ?thesis
    using p q(1) rep_length [OF p(2)] rep_length [OF r2] len
    by (simp add: Stack_size_def List_length_def)
qed

theorem stack_push_pop_reverse_witness:
  "rep fresh_list 0 0 [] 0 0 \<and>
   (\<exists>s1 s2 s3. pushes 0 [Obj (gInt 1), Obj (gInt 2), Obj (gInt 3)] fresh_list = Some s1 \<and>
      pops 3 0 s1 = Some ([Obj (gInt 3), Obj (gInt 2), Obj (gInt 1)], s2) \<and>
      Stack_pop 0 s2 = Some (NULL, s3))"
proof -
  have 1: "rep fresh_list 0 0 [] 0 0" by code_simp
  have 2: "length [Obj (gInt 1), Obj (gInt 2), Obj (gInt 3)] = 3" by simp
  have 3: "rev [Obj (gInt 1), Obj (gInt 2), Obj (gInt 3)] = [Obj (gInt 3), Obj (gInt 2), Obj (gInt 1)]"
    by simp
  from stack_push_pop_reverse [OF 1, of "[Obj (gInt 1), Obj (gInt 2), Obj (gInt 3)]"]
  show ?thesis unfolding 2 3 using 1 by blast
qed

text \<open>
  C9. For every list and every position below 1 or above the length,
  \<^verbatim>\<open>GetAt\<close> returns the null value and leaves the whole store as it was: the window,
  the index, the length and every node.
\<close>

theorem GetAt_out_of_range_unchanged:
  assumes "get_length s this = Some n" and "pt < 1 \<or> pt > n"
  shows "List_GetAt this pt s = Some (NULL, s)"
  using assms by (auto simp: List_GetAt_def)

theorem GetAt_out_of_range_unchanged_witness:
  "get_length fresh_list 0 = Some 0 \<and> ((1::int) < 1 \<or> (1::int) > 0) \<and>
   List_GetAt 0 1 fresh_list = Some (NULL, fresh_list)"
proof -
  have 1: "get_length fresh_list 0 = Some 0" by code_simp
  have 2: "(1::int) < 1 \<or> (1::int) > 0" by simp
  from GetAt_out_of_range_unchanged [OF 1 2] 1 2 show ?thesis by simp
qed

text \<open>
  C10. On an empty stack (a well-formed list with no element, whatever its index
  field holds), \<^verbatim>\<open>top()\<close> and \<^verbatim>\<open>bottom()\<close> return the null value, which is the value
  of the header, and the stack is empty afterwards, of size 0, with the window of its
  list on the header.
\<close>

theorem empty_stack_top_bottom:
  assumes r: "rep s st hdr [] i idx"
  shows "(\<exists>s'. Stack_top st s = Some (NULL, s') \<and> Stack_size st s' = Some 0 \<and>
               Stack_empty st s' = Some True \<and> elements s' st = [] \<and>
               get_win s' st = get_header s' st) \<and>
         (\<exists>s'. Stack_bottom st s = Some (NULL, s') \<and> Stack_size st s' = Some 0 \<and>
               Stack_empty st s' = Some True \<and> elements s' st = [] \<and>
               get_win s' st = get_header s' st)"
proof -
  have hv: "get_val (nodes s) hdr = Some NULL" using r by (simp add: rep_def)
  from List_first_rep [OF r] obtain v s1 where
    f: "List_first st s = Some (v, s1)" "get_val (nodes s) hdr = Some v" "rep s1 st hdr [] 0 1"
    by (auto simp: succ_pos_def)
  from List_last_rep [OF r] obtain w s2 where
    l: "List_last st s = Some (w, s2)" "get_val (nodes s) hdr = Some w" "rep s2 st hdr [] 0 0"
    by auto
  have "v = NULL" "w = NULL" using hv f(2) l(2) by simp_all
  then show ?thesis
    using f(1) l(1) rep_length [OF f(3)] rep_length [OF l(3)]
      rep_elements [OF f(3)] rep_elements [OF l(3)]
      rep_win [OF f(3)] rep_win [OF l(3)] rep_header [OF f(3)] rep_header [OF l(3)]
    by (simp add: Stack_top_def Stack_bottom_def Stack_size_def Stack_empty_def List_length_def)
qed

theorem empty_stack_top_bottom_witness:
  "rep fresh_list 0 0 [] 0 0 \<and>
   (\<exists>s'. Stack_top 0 fresh_list = Some (NULL, s') \<and> Stack_size 0 s' = Some 0 \<and>
         Stack_empty 0 s' = Some True \<and> elements s' 0 = [] \<and> get_win s' 0 = get_header s' 0) \<and>
   (\<exists>s'. Stack_bottom 0 fresh_list = Some (NULL, s') \<and> Stack_size 0 s' = Some 0 \<and>
         Stack_empty 0 s' = Some True \<and> elements s' 0 = [] \<and> get_win s' 0 = get_header s' 0)"
proof -
  have 1: "rep fresh_list 0 0 [] 0 0" by code_simp
  from empty_stack_top_bottom [OF 1] 1 show ?thesis by simp
qed

end
